theory Spec2Isabelle
  imports
    Main
    "HOL-Library.Char_ord"
    "HOL-Library.List_Lexorder"
    "HOL-Library.Product_Lexorder"
    "HOL-Library.Multiset"
begin

section \<open>JavaScript values used by the two search handlers\<close>

text \<open>
  Strings are Isabelle strings (lists of code units); \<open><\<close> on them is the lexicographic
  order on code units, as JavaScript's \<open><\<close> on strings is.

  A \<open>Set<string>\<close> is the list of its members in insertion order, without duplicates.
\<close>

definition set_add :: "string \<Rightarrow> string list \<Rightarrow> string list" where
  "set_add x s = (if x \<in> set s then s else s @ [x])"

definition set_has :: "string list \<Rightarrow> string \<Rightarrow> bool" where
  "set_has s x = (x \<in> set s)"

definition set_delete :: "string \<Rightarrow> string list \<Rightarrow> string list" where
  "set_delete x s = filter (\<lambda>y. y \<noteq> x) s"

text \<open>The character class \<open>\d\<close>.\<close>

definition is_digit :: "char \<Rightarrow> bool" where
  "is_digit c = (c \<in> set ''0123456789'')"

text \<open>
  \<open>s.match(/_(\d+)$/)?.[1]\<close>: the capture group when \<open>s\<close> ends in an underscore
  followed by one or more digits, nothing otherwise. A digit is no underscore, so the only
  place the pattern can match is at the longest run of digits that ends the string.
\<close>

definition match_index :: "string \<Rightarrow> string option" where
  "match_index s =
     (let ds = rev (takeWhile is_digit (rev s));
          front = rev (dropWhile is_digit (rev s))
      in if ds \<noteq> [] \<and> front \<noteq> [] \<and> last front = CHR ''_'' then Some ds else None)"

text \<open>\<open>s.lastIndexOf(c)\<close>: the index of the last occurrence, or \<open>-1\<close>.\<close>

definition lastIndexOf :: "string \<Rightarrow> char \<Rightarrow> int" where
  "lastIndexOf s c =
     (if c \<in> set s then int (length s) - 1 - int (length (takeWhile (\<lambda>x. x \<noteq> c) (rev s)))
      else - 1)"

text \<open>\<open>s.substring(0, n)\<close>; a negative \<open>n\<close> counts as \<open>0\<close>, one beyond the end as the length.\<close>

definition substring0 :: "string \<Rightarrow> int \<Rightarrow> string" where
  "substring0 s n = take (nat n) s"

text \<open>\<open>xs.join(sep)\<close> on an array of strings.\<close>

fun join :: "string \<Rightarrow> string list \<Rightarrow> string" where
  "join sep [] = []"
| "join sep [x] = x"
| "join sep (x # y # ys) = x @ sep @ join sep (y # ys)"

section \<open>JavaScript numbers\<close>

text \<open>
  A number is an IEEE double. The numbers the handlers compute with are chunk indices read
  by \<open>parseInt\<close>, \<open>extK\<close>, and their sums and differences: integers that a double holds, or
  an infinity. \<open>Num n\<close> is the double whose value is the integer \<open>n\<close>.
  \<open>extK\<close> itself is a finite integer, an \<open>int\<close>. Not-a-number arises in one place only,
  as the difference of two equal infinities in the comparator of the sort, which reads it
  as zero.
\<close>

datatype number = MinusInfinity | Num int | PlusInfinity

text \<open>The order of numbers, as \<open><=\<close> and \<open>Math.max\<close> see it.\<close>

instantiation number :: linorder
begin

fun less_eq_number :: "number \<Rightarrow> number \<Rightarrow> bool" where
  "less_eq_number MinusInfinity y = True"
| "less_eq_number (Num a) MinusInfinity = False"
| "less_eq_number (Num a) (Num b) = (a \<le> b)"
| "less_eq_number (Num a) PlusInfinity = True"
| "less_eq_number PlusInfinity PlusInfinity = True"
| "less_eq_number PlusInfinity y = False"

definition less_number :: "number \<Rightarrow> number \<Rightarrow> bool" where
  "less_number x y = (x \<le> y \<and> \<not> y \<le> x)"

instance
proof
  fix x y z :: number
  show "(x < y) = (x \<le> y \<and> \<not> y \<le> x)" by (simp add: less_number_def)
  show "x \<le> x" by (cases x) simp_all
  show "x \<le> y \<Longrightarrow> y \<le> z \<Longrightarrow> x \<le> z" by (cases x; cases y; cases z) simp_all
  show "x \<le> y \<Longrightarrow> y \<le> x \<Longrightarrow> x = y" by (cases x; cases y) simp_all
  show "x \<le> y \<or> y \<le> x" by (cases x; cases y) auto
qed

end

text \<open>
  Every integer up to \<open>2 ^ 53\<close> in magnitude is a double; \<open>MAX_SAFE_INTEGER\<close> is the last
  one before the doubles thin out. \<open>to_number n\<close> is the double nearest to the integer
  \<open>n\<close>: a magnitude of \<open>54\<close> bits or more keeps its leading \<open>53\<close> bits, rounded to nearest
  with a tie going to the even neighbour, and a result of \<open>2 ^ 1024\<close> or more is an infinity.
\<close>

definition MAX_SAFE_INTEGER :: int where
  "MAX_SAFE_INTEGER = 2 ^ 53 - 1"

fun bit_length :: "nat \<Rightarrow> nat" where
  "bit_length n = (if n = 0 then 0 else Suc (bit_length (n div 2)))"

declare bit_length.simps [simp del]

definition round_magnitude :: "nat \<Rightarrow> nat" where
  "round_magnitude n =
     (if n < 2 ^ 53 then n
      else (let e = bit_length n - 53;
                q = n div 2 ^ e;
                r = n mod 2 ^ e;
                half = 2 ^ (e - 1);
                m = (if r < half then q else if half < r then q + 1
                     else if even q then q else q + 1)
            in m * 2 ^ e))"

definition to_number :: "int \<Rightarrow> number" where
  "to_number n =
     (let v = round_magnitude (nat \<bar>n\<bar>)
      in if 2 ^ 1024 \<le> v then (if n < 0 then MinusInfinity else PlusInfinity)
         else Num (if n < 0 then - int v else int v))"

text \<open>\<open>x + k\<close> and \<open>x - k\<close> for a number \<open>x\<close> and a finite integer \<open>k\<close>: the exact result,
  rounded; an infinity stays what it is.\<close>

definition number_add :: "number \<Rightarrow> int \<Rightarrow> number" where
  "number_add x k =
     (case x of
        Num a \<Rightarrow> to_number (a + k)
      | MinusInfinity \<Rightarrow> MinusInfinity
      | PlusInfinity \<Rightarrow> PlusInfinity)"

definition number_sub :: "number \<Rightarrow> int \<Rightarrow> number" where
  "number_sub x k =
     (case x of
        Num a \<Rightarrow> to_number (a - k)
      | MinusInfinity \<Rightarrow> MinusInfinity
      | PlusInfinity \<Rightarrow> PlusInfinity)"

text \<open>
  The sign that the sort reads from \<open>x - y\<close>. The difference of two finite numbers has
  the sign of the exact difference; an infinity minus itself is not a number, which the
  sort takes for zero.
\<close>

fun difference_sign :: "number \<Rightarrow> number \<Rightarrow> int" where
  "difference_sign (Num a) (Num b) = sgn (a - b)"
| "difference_sign PlusInfinity PlusInfinity = 0"
| "difference_sign MinusInfinity MinusInfinity = 0"
| "difference_sign PlusInfinity y = 1"
| "difference_sign x PlusInfinity = - 1"
| "difference_sign MinusInfinity y = - 1"
| "difference_sign x MinusInfinity = 1"

text \<open>
  \<open>parseInt(ds, 10)\<close> on a string of digits: the exact value of the digits, as a double
  (the engine rounds the exact value correctly).
\<close>

definition digit_val :: "char \<Rightarrow> int" where
  "digit_val c = int (of_char c) - 48"

definition digits_value :: "string \<Rightarrow> int" where
  "digits_value ds = foldl (\<lambda>n c. 10 * n + digit_val c) 0 ds"

definition parseInt :: "string \<Rightarrow> number" where
  "parseInt ds = to_number (digits_value ds)"

text \<open>
  The rendering of a number inside a template literal. An integer is rendered by its
  decimal digits. That is what the language does for every double below \<open>2 ^ 54\<close> in
  magnitude; a larger double may be rendered by fewer digits and zeros, or with an exponent.
  \<open>getIdRange\<close> returns renderings of doubles below \<open>2 ^ 54\<close> only: from \<open>2 ^ 54\<close> on the
  doubles are four or more apart, so whenever its loop reaches such a double the increment
  leaves the counter unchanged and the loop never ends (\<open>getIdRange_loop_stuck\<close> below).
\<close>

fun digits_of :: "nat \<Rightarrow> string" where
  "digits_of n =
     (if n < 10 then [''0123456789'' ! n]
      else digits_of (n div 10) @ [''0123456789'' ! (n mod 10)])"

declare digits_of.simps [simp del]

definition num_to_string :: "number \<Rightarrow> string" where
  "num_to_string x =
     (case x of
        Num i \<Rightarrow> (if i < 0 then CHR ''-'' # digits_of (nat (- i)) else digits_of (nat i))
      | PlusInfinity \<Rightarrow> ''Infinity''
      | MinusInfinity \<Rightarrow> ''-Infinity'')"

section \<open>Identifier model: \<open>getIdRange\<close>\<close>

text \<open>
  The loop \<open>for (let i = lo; i <= hi; i++) idRange.add(pre + i)\<close> of \<open>getIdRange\<close>,
  with the set built so far as accumulator. The loop need not end: \<open>i++\<close> rounds, and
  at \<open>2 ^ 53\<close> it gives \<open>2 ^ 53\<close> again. The result is \<open>None\<close> when the loop never ends,
  and so is the result of \<open>getIdRange\<close>.
\<close>

partial_function (option) getIdRange_loop ::
  "string \<Rightarrow> number \<Rightarrow> number \<Rightarrow> string list \<Rightarrow> string list option" where
  "getIdRange_loop pre i hi idRange =
     (if i \<le> hi
      then getIdRange_loop pre (number_add i 1) hi (set_add (pre @ num_to_string i) idRange)
      else Some idRange)"

definition getIdRange :: "string \<Rightarrow> int \<Rightarrow> string list option" where
  "getIdRange cid extK =
     (case match_index cid of
        Some m \<Rightarrow>
          (let baseId = parseInt m
           in getIdRange_loop (substring0 cid (lastIndexOf cid CHR ''_'' + 1))
                (max (Num 0) (number_sub baseId extK)) (number_add baseId extK) [])
      | None \<Rightarrow> Some [])"

section \<open>Filter translation and the two backend queries (textbook search)\<close>

text \<open>
  An object used as a dictionary is the list of its fields in enumeration order.
  \<open>FilterType\<close> is \<open>{ [field]: string[] }\<close>, \<open>DateFilterType\<close> is
  \<open>{ [field]: { gte?: number; lte?: number } }\<close>; an optional field is an \<open>option\<close>.
\<close>

type_synonym FilterType = "(string \<times> string list) list"

record Range =
  r_gte :: "int option"
  r_lte :: "int option"

type_synonym DateFilterType = "(string \<times> Range) list"

record FiltersItem =
  f_terms :: "FilterType option"
  f_range :: "DateFilterType option"

type_synonym FiltersType = "FiltersItem list"

text \<open>One condition of the vector store, \<open>{ $in?, $gte?, $lte? }\<close>, and the filter \<open>{ $and: [...] }\<close>;
  a condition \<open>{ [field]: c }\<close> is the pair of its field and \<open>c\<close>.\<close>

record PCCondition =
  c_in :: "string list option"
  c_gte :: "int option"
  c_lte :: "int option"

record PCFilter =
  pc_and :: "(string \<times> PCCondition) list"

text \<open>Truthiness: an optional number is truthy when it is present and not zero; an object,
  an empty array included, is truthy whatever it holds.\<close>

definition truthy_number :: "int option \<Rightarrow> bool" where
  "truthy_number v = (case v of None \<Rightarrow> False | Some n \<Rightarrow> n \<noteq> 0)"

definition truthy_object :: "'a \<Rightarrow> bool" where
  "truthy_object x = True"

definition truthy_optional :: "'a option \<Rightarrow> bool" where
  "truthy_optional v = (case v of None \<Rightarrow> False | Some x \<Rightarrow> truthy_object x)"

definition rangeConditions :: "Range \<Rightarrow> PCCondition" where
  "rangeConditions r =
     \<lparr>c_in = None,
      c_gte = (if truthy_number (r_gte r) then r_gte r else None),
      c_lte = (if truthy_number (r_lte r) then r_lte r else None)\<rparr>"

definition item_conditions :: "FiltersItem \<Rightarrow> (string \<times> PCCondition) list" where
  "item_conditions item =
     (case f_terms item of
        Some ts \<Rightarrow> map (\<lambda>(field, vs). (field, \<lparr>c_in = Some vs, c_gte = None, c_lte = None\<rparr>)) ts
      | None \<Rightarrow> [])
     @ (case f_range item of
          Some rs \<Rightarrow> map (\<lambda>(field, r). (field, rangeConditions r)) rs
        | None \<Rightarrow> [])"

definition filterToPCQuery :: "FiltersType \<Rightarrow> PCFilter" where
  "filterToPCQuery filters = \<lparr>pc_and = concat (map item_conditions filters)\<rparr>"

text \<open>The array \<open>filters\<close> that \<open>search\<close> builds from its two optional arguments
  \<open>filter\<close> (here \<open>filter_arg\<close>) and \<open>datefilter\<close>.\<close>

definition build_filters :: "FilterType option \<Rightarrow> DateFilterType option \<Rightarrow> FiltersType" where
  "build_filters filter_arg datefilter =
     (if truthy_optional filter_arg \<or> truthy_optional datefilter
      then (case filter_arg of Some f \<Rightarrow> [\<lparr>f_terms = Some f, f_range = None\<rparr>] | None \<Rightarrow> [])
         @ (case datefilter of Some d \<Rightarrow> [\<lparr>f_terms = None, f_range = Some d\<rparr>] | None \<Rightarrow> [])
      else [])"

text \<open>The body of the keyword-store request: \<open>should\<close> holds the text of each \<open>match\<close> clause,
  \<open>bool_filter\<close> is the \<open>filter\<close> key of \<open>query.bool\<close>, absent when \<open>None\<close>.\<close>

record Body =
  should :: "string list"
  minimum_should_match :: int
  bool_filter :: "FiltersType option"
  size_of :: int

definition search_body :: "string list \<Rightarrow> int \<Rightarrow> FiltersType \<Rightarrow> Body" where
  "search_body full_text_query topK filters =
     (if truthy_object filters
      then \<lparr>should = full_text_query, minimum_should_match = 1,
            bool_filter = Some filters, size_of = topK\<rparr>
      else \<lparr>should = full_text_query, minimum_should_match = 1,
            bool_filter = None, size_of = topK\<rparr>)"

text \<open>The options of the vector-store query; \<open>qo_filter\<close> is the optional key \<open>filter\<close>.\<close>

record 'v QueryOptions =
  vector :: 'v
  qo_topK :: int
  includeMetadata :: bool
  includeValues :: bool
  qo_filter :: "PCFilter option"

definition search_queryOptions :: "'v \<Rightarrow> int \<Rightarrow> FiltersType \<Rightarrow> 'v QueryOptions" where
  "search_queryOptions searchVector topK filters =
     (let queryOptions = \<lparr>vector = searchVector, qo_topK = topK, includeMetadata = True,
                           includeValues = False, qo_filter = None\<rparr>
      in if truthy_object filters
         then queryOptions\<lparr>qo_filter := Some (filterToPCQuery filters)\<rparr>
         else queryOptions)"

section \<open>Backend responses and documents (textbook search)\<close>

text \<open>The metadata of a vector-store match, the \<open>_source\<close> of a keyword-store hit and the
  \<open>Document\<close> built from either. A match has its metadata or not; a document returned by
  \<open>mget\<close> has a \<open>found\<close> flag, and its \<open>_source\<close> is read only when the flag is set.
  The records of the source share field names, so each field carries a prefix for its
  record: \<open>m_\<close> for the metadata, \<open>s_\<close> for \<open>_source\<close>, \<open>d_\<close> for \<open>Document\<close>; the \<open>id\<close> of a
  match is \<open>match_id\<close>, the \<open>_id\<close> of a hit \<open>hit_id\<close>.\<close>

record Metadata =
  m_rec_id :: string
  m_page_number :: int
  m_isbn_number :: string
  m_text :: string
  m_title :: string
  m_company_name :: string
  m_publication_date :: int

record Match =
  match_id :: string
  metadata :: "Metadata option"

record Source =
  s_rec_id :: string
  s_page_number :: int
  s_isbn_number :: string
  s_text :: string
  s_title :: string
  s_author :: string
  s_publication_date :: int

record Hit =
  hit_id :: string
  hit_source :: Source

record MgetDoc =
  mget_id :: string
  found :: bool
  mget_source :: Source

record Document =
  d_sort_id :: number
  d_id :: string
  d_page_number :: int
  d_text :: string
  d_title :: string
  d_author :: string
  d_isbn_number :: string
  d_publication_date :: int

text \<open>\<open>parseInt(id.match(/_(\d+)$/)?.[1] ?? '0', 10)\<close>\<close>

definition sort_id_of :: "string \<Rightarrow> number" where
  "sort_id_of cid = parseInt (case match_index cid of Some m \<Rightarrow> m | None \<Rightarrow> ''0'')"

definition pinecone_document :: "string \<Rightarrow> Metadata \<Rightarrow> Document" where
  "pinecone_document cid md =
     \<lparr>d_sort_id = sort_id_of cid, d_id = m_rec_id md, d_page_number = m_page_number md,
      d_text = m_text md, d_title = m_title md, d_author = m_company_name md,
      d_isbn_number = m_isbn_number md, d_publication_date = m_publication_date md\<rparr>"

definition fulltext_document :: "string \<Rightarrow> Source \<Rightarrow> Document" where
  "fulltext_document cid src =
     \<lparr>d_sort_id = sort_id_of cid, d_id = s_rec_id src, d_page_number = s_page_number src,
      d_text = s_text src, d_title = s_title src, d_author = s_author src,
      d_isbn_number = s_isbn_number src, d_publication_date = s_publication_date src\<rparr>"

section \<open>Union and deduplication of the two hit lists\<close>

text \<open>The two loops of \<open>search\<close> over \<open>pineconeResponse.matches\<close> and over
  \<open>fulltextResponse.body.hits.hits\<close>; the state is \<open>(id_set, unique_docs)\<close>.\<close>

fun pinecone_loop :: "Match list \<Rightarrow> string list \<times> Document list \<Rightarrow> string list \<times> Document list" where
  "pinecone_loop [] st = st"
| "pinecone_loop (doc # rest) (id_set, unique_docs) =
     pinecone_loop rest
       (set_add (match_id doc) id_set,
        (case metadata doc of
           Some md \<Rightarrow> unique_docs @ [pinecone_document (match_id doc) md]
         | None \<Rightarrow> unique_docs))"

fun fulltext_loop :: "Hit list \<Rightarrow> string list \<times> Document list \<Rightarrow> string list \<times> Document list" where
  "fulltext_loop [] st = st"
| "fulltext_loop (doc # rest) (id_set, unique_docs) =
     (if \<not> set_has id_set (hit_id doc)
      then fulltext_loop rest
             (set_add (hit_id doc) id_set,
              unique_docs @ [fulltext_document (hit_id doc) (hit_source doc)])
      else fulltext_loop rest (id_set, unique_docs))"

definition reduce_hits :: "Match list \<Rightarrow> Hit list \<Rightarrow> string list \<times> Document list" where
  "reduce_hits matches hits = fulltext_loop hits (pinecone_loop matches ([], []))"

text \<open>
  A \<open>Document\<close> does not hold the chunk id it was built for. To speak of "the document of
  chunk id X", the same two loops are run once more with every pushed document paired with
  the chunk id of the hit it comes from; \<open>reduce_hits_tagged_erase\<close> below shows that
  dropping the tags gives back \<open>reduce_hits\<close>.
\<close>

fun pinecone_loop_tagged ::
  "Match list \<Rightarrow> string list \<times> (string \<times> Document) list \<Rightarrow> string list \<times> (string \<times> Document) list" where
  "pinecone_loop_tagged [] st = st"
| "pinecone_loop_tagged (doc # rest) (id_set, unique_docs) =
     pinecone_loop_tagged rest
       (set_add (match_id doc) id_set,
        (case metadata doc of
           Some md \<Rightarrow> unique_docs @ [(match_id doc, pinecone_document (match_id doc) md)]
         | None \<Rightarrow> unique_docs))"

fun fulltext_loop_tagged ::
  "Hit list \<Rightarrow> string list \<times> (string \<times> Document) list \<Rightarrow> string list \<times> (string \<times> Document) list" where
  "fulltext_loop_tagged [] st = st"
| "fulltext_loop_tagged (doc # rest) (id_set, unique_docs) =
     (if \<not> set_has id_set (hit_id doc)
      then fulltext_loop_tagged rest
             (set_add (hit_id doc) id_set,
              unique_docs @ [(hit_id doc, fulltext_document (hit_id doc) (hit_source doc))])
      else fulltext_loop_tagged rest (id_set, unique_docs))"

definition reduce_hits_tagged :: "Match list \<Rightarrow> Hit list \<Rightarrow> string list \<times> (string \<times> Document) list" where
  "reduce_hits_tagged matches hits =
     fulltext_loop_tagged hits (pinecone_loop_tagged matches ([], []))"

text \<open>What a match contributes to the tagged list: its document when it has metadata.\<close>

definition tagged_of_match :: "Match \<Rightarrow> (string \<times> Document) list" where
  "tagged_of_match m =
     (case metadata m of
        Some md \<Rightarrow> [(match_id m, pinecone_document (match_id m) md)]
      | None \<Rightarrow> [])"

section \<open>Context expansion\<close>

text \<open>
  The set \<open>extend_ids\<close>: the ranges of all seen ids, then every seen id deleted. When a
  call of \<open>getIdRange\<close> never returns, neither does this computation: the result is \<open>None\<close>.
\<close>

fun collect_ranges :: "string list \<Rightarrow> int \<Rightarrow> string list \<Rightarrow> string list option" where
  "collect_ranges [] extK extend_ids = Some extend_ids"
| "collect_ranges (cid # rest) extK extend_ids =
     (case getIdRange cid extK of
        None \<Rightarrow> None
      | Some idRange \<Rightarrow> collect_ranges rest extK (fold set_add idRange extend_ids))"

definition extend_ids :: "string list \<Rightarrow> int \<Rightarrow> string list option" where
  "extend_ids id_set extK =
     (case collect_ranges id_set extK [] of
        None \<Rightarrow> None
      | Some extend_ids \<Rightarrow> Some (fold set_delete id_set extend_ids))"

text \<open>What \<open>search\<close> asks of \<open>mget\<close>: nothing when the guard \<open>extK > 0\<close> fails, the ids
  of \<open>extend_ids\<close> otherwise; \<open>None\<close> when the computation of the ids never returns.\<close>

datatype request = No_request | Request "string list"

definition mget_ids :: "string list \<Rightarrow> int \<Rightarrow> request option" where
  "mget_ids id_set extK =
     (if extK > 0
      then (case extend_ids id_set extK of None \<Rightarrow> None | Some ids \<Rightarrow> Some (Request ids))
      else Some No_request)"

text \<open>The ids of a chunk id's range as a set, empty when \<open>getIdRange\<close> does not return; and
  the chunk ids whose index, moved up by \<open>extK\<close>, stays a safe integer.\<close>

definition range_ids :: "string \<Rightarrow> int \<Rightarrow> string set" where
  "range_ids cid extK = (case getIdRange cid extK of None \<Rightarrow> {} | Some idRange \<Rightarrow> set idRange)"

definition safe_index :: "string \<Rightarrow> int \<Rightarrow> bool" where
  "safe_index cid extK =
     (case match_index cid of
        None \<Rightarrow> True
      | Some m \<Rightarrow> digits_value m + extK \<le> MAX_SAFE_INTEGER)"

definition expansion_documents :: "MgetDoc list \<Rightarrow> Document list" where
  "expansion_documents docs =
     map (\<lambda>doc. fulltext_document (mget_id doc) (mget_source doc)) (filter found docs)"

section \<open>Sorting and merging the chunks of one parent\<close>

text \<open>
  The comparator given to \<open>unique_docs.sort\<close>, by the sign of its result.
  \<open>Array.prototype.sort\<close> is stable, and this comparator is a total preorder, so the result
  is the stable sort; it is modelled as insertion from the right, which keeps equal
  elements in their input order.
\<close>

definition compare_docs :: "Document \<Rightarrow> Document \<Rightarrow> int" where
  "compare_docs a b =
     (if d_id a < d_id b then - 1
      else if d_id a > d_id b then 1
      else difference_sign (d_sort_id a) (d_sort_id b))"

fun insert_by :: "('a \<Rightarrow> 'a \<Rightarrow> int) \<Rightarrow> 'a \<Rightarrow> 'a list \<Rightarrow> 'a list" where
  "insert_by cmp x [] = [x]"
| "insert_by cmp x (y # ys) = (if cmp x y \<le> 0 then x # y # ys else y # insert_by cmp x ys)"

definition array_sort :: "('a \<Rightarrow> 'a \<Rightarrow> int) \<Rightarrow> 'a list \<Rightarrow> 'a list" where
  "array_sort cmp xs = foldr (insert_by cmp) xs []"

text \<open>Closing a group: \<open>{ ...currentGroup[0], text: combinedText }\<close> is pushed when the group
  is not empty.\<close>

definition newline :: string where
  "newline = [CHR 0x0A]"

definition push_group :: "Document list \<Rightarrow> Document list \<Rightarrow> Document list" where
  "push_group combinedDocs currentGroup =
     (case currentGroup of
        [] \<Rightarrow> combinedDocs
      | first # _ \<Rightarrow>
          combinedDocs @ [first\<lparr>d_text := join newline (map d_text currentGroup)\<rparr>])"

text \<open>The single pass; the state is \<open>(combinedDocs, currentGroup, currentId)\<close>, with
  \<open>currentId = None\<close> for \<open>null\<close>.\<close>

fun combine_loop ::
  "Document list \<Rightarrow> Document list \<times> Document list \<times> string option
     \<Rightarrow> Document list \<times> Document list \<times> string option" where
  "combine_loop [] st = st"
| "combine_loop (doc # rest) (combinedDocs, currentGroup, currentId) =
     (if Some (d_id doc) \<noteq> currentId
      then combine_loop rest (push_group combinedDocs currentGroup, [doc], Some (d_id doc))
      else combine_loop rest (combinedDocs, currentGroup @ [doc], currentId))"

text \<open>After the loop the last group is closed in the same way.\<close>

definition handle_last_group ::
  "Document list \<times> Document list \<times> string option \<Rightarrow> Document list" where
  "handle_last_group st =
     (case st of (combinedDocs, currentGroup, currentId) \<Rightarrow> push_group combinedDocs currentGroup)"

definition combine :: "Document list \<Rightarrow> Document list" where
  "combine unique_docs = handle_last_group (combine_loop unique_docs ([], [], None))"

definition group_merge :: "Document list \<Rightarrow> Document list" where
  "group_merge unique_docs = combine (array_sort compare_docs unique_docs)"

text \<open>The key that \<open>compare_docs\<close> orders by, used to state what the sort does.\<close>

definition sort_key_of :: "Document \<Rightarrow> string \<times> number" where
  "sort_key_of d = (d_id d, d_sort_id d)"

section \<open>The journal search with cross-referenced citations\<close>

datatype error = Record_not_found

record Entry =
  content :: string
  source :: string

record JournalData =
  doi :: string
  title :: string
  authors :: "string list"

text \<open>
  \<open>getMeta\<close>: the ids are looked up in batches of 400, one call of the relational store
  per batch. The call is the parameter \<open>select_in\<close>, \<open>None\<close> when it reports an error;
  \<open>getMeta\<close> then returns \<open>null\<close>, here \<open>None\<close>.
\<close>

definition batchSize :: nat where
  "batchSize = 400"

function getMeta_loop ::
  "(string list \<Rightarrow> JournalData list option) \<Rightarrow> string list \<Rightarrow> nat \<Rightarrow> JournalData list
     \<Rightarrow> JournalData list option" where
  "getMeta_loop select_in dois i allData =
     (if i < length dois
      then (case select_in (take batchSize (drop i dois)) of
              None \<Rightarrow> None
            | Some dat \<Rightarrow> getMeta_loop select_in dois (i + batchSize) (allData @ dat))
      else Some allData)"
  by pat_completeness auto
termination
  by (relation "measure (\<lambda>(select_in, dois, i, allData). length dois - i)")
     (auto simp: batchSize_def)

declare getMeta_loop.simps [simp del]

definition getMeta :: "(string list \<Rightarrow> JournalData list option) \<Rightarrow> string list \<Rightarrow> JournalData list option" where
  "getMeta select_in dois = getMeta_loop select_in dois 0 []"

text \<open>A match of the journal index; \<open>doi\<close> may be missing from the metadata, and an empty
  string is falsy like a missing one.\<close>

record SciMetadata =
  sm_doi :: "string option"
  sm_date :: int
  sm_text :: string
  sm_journal :: string

record SciMatch =
  sci_metadata :: "SciMetadata option"

record SciDoc =
  sd_id :: string
  sd_text :: string
  sd_journal :: string
  sd_date :: string

definition truthy_string :: "string option \<Rightarrow> bool" where
  "truthy_string v = (case v of None \<Rightarrow> False | Some s \<Rightarrow> s \<noteq> [])"

fun sci_unique_docs :: "(int \<Rightarrow> string) \<Rightarrow> SciMatch list \<Rightarrow> SciDoc list" where
  "sci_unique_docs fmt [] = []"
| "sci_unique_docs fmt (doc # rest) =
     (case sci_metadata doc of
        Some md \<Rightarrow>
          (case sm_doi md of
             Some d \<Rightarrow>
               (if truthy_string (Some d)
                then \<lparr>sd_id = d, sd_text = sm_text md, sd_journal = sm_journal md,
                      sd_date = fmt (sm_date md)\<rparr> # sci_unique_docs fmt rest
                else sci_unique_docs fmt rest)
           | None \<Rightarrow> sci_unique_docs fmt rest)
      | None \<Rightarrow> sci_unique_docs fmt rest)"

definition uniqueIds :: "SciDoc list \<Rightarrow> string list" where
  "uniqueIds unique_docs = fold set_add (map sd_id unique_docs) []"

text \<open>\<open>pgResponse?.find((r) => r.doi === doc.id)\<close>\<close>

definition find_record :: "JournalData list option \<Rightarrow> string \<Rightarrow> JournalData option" where
  "find_record pgResponse i =
     (case pgResponse of None \<Rightarrow> None | Some rs \<Rightarrow> find (\<lambda>r. doi r = i) rs)"

definition sci_source_entry :: "JournalData \<Rightarrow> SciDoc \<Rightarrow> string" where
  "sci_source_entry record doc =
     ''['' @ title record @ '', '' @ sd_journal doc @ ''. '' @ join '', '' (authors record)
       @ ''. '' @ sd_date doc @ ''.](https://doi.org/'' @ doi record @ '')''"

text \<open>The \<open>map\<close> that builds \<open>docList\<close>: the callback throws at the first document without a
  record, and the exception ends \<open>search\<close>.\<close>

fun sci_docList :: "JournalData list option \<Rightarrow> SciDoc list \<Rightarrow> error + Entry list" where
  "sci_docList pgResponse [] = Inr []"
| "sci_docList pgResponse (doc # rest) =
     (case find_record pgResponse (sd_id doc) of
        Some record \<Rightarrow>
          (case sci_docList pgResponse rest of
             Inl e \<Rightarrow> Inl e
           | Inr entries \<Rightarrow>
               Inr (\<lparr>content = sd_text doc, source = sci_source_entry record doc\<rparr> # entries))
      | None \<Rightarrow> Inl Record_not_found)"

text \<open>
  The journal handler has a filter translation of its own. Its \<open>FilterType\<close> is
  \<open>{ journal?: string[]; date?: string }\<close> or the empty object; a condition is
  \<open>{ $or: [{ journal: c }, ...] }\<close> or \<open>{ date: d }\<close>, and the result is \<open>{ $and: conditions }\<close>
  or \<open>undefined\<close>.
\<close>

record SciFilter =
  sf_journal :: "string list option"
  sf_date :: "string option"

datatype SciCondition = JournalCondition "string list" | DateCondition string

text \<open>\<open>Object.keys(filter).length\<close>\<close>

definition keys_length :: "SciFilter \<Rightarrow> nat" where
  "keys_length f =
     (case sf_journal f of Some js \<Rightarrow> 1 | None \<Rightarrow> 0) + (case sf_date f of Some d \<Rightarrow> 1 | None \<Rightarrow> 0)"

definition sci_filterToPCQuery :: "SciFilter option \<Rightarrow> SciCondition list option" where
  "sci_filterToPCQuery filter_arg =
     (case filter_arg of
        None \<Rightarrow> None
      | Some f \<Rightarrow>
          if keys_length f = 0 then None
          else (let conditions =
                      (case sf_journal f of Some js \<Rightarrow> [JournalCondition js] | None \<Rightarrow> [])
                      @ (case sf_date f of
                           Some d \<Rightarrow> (if truthy_string (Some d) then [DateCondition d] else [])
                         | None \<Rightarrow> [])
                in if length conditions > 0 then Some conditions else None))"

text \<open>The key \<open>filter\<close> of the journal handler's query options, set only under the guard
  \<open>filter && Object.keys(filter).length > 0\<close>.\<close>

definition sci_query_filter :: "SciFilter option \<Rightarrow> SciCondition list option" where
  "sci_query_filter filter_arg =
     (case filter_arg of
        None \<Rightarrow> None
      | Some f \<Rightarrow> if keys_length f > 0 then sci_filterToPCQuery filter_arg else None)"

text \<open>\<open>search\<close> of the journal handler, from the response of the vector store on.\<close>

definition sci_search ::
  "(int \<Rightarrow> string) \<Rightarrow> (string list \<Rightarrow> JournalData list option) \<Rightarrow> SciMatch list
     \<Rightarrow> error + Entry list" where
  "sci_search formatTimestampToYearMonth select_in matches =
     (let unique_docs = sci_unique_docs formatTimestampToYearMonth matches;
          pgResponse = getMeta select_in (uniqueIds unique_docs)
      in sci_docList pgResponse unique_docs)"

section \<open>Example data\<close>

text \<open>A chunk of parent \<open>p\<close> with index \<open>n\<close> and text \<open>t\<close>, on page \<open>n + 1\<close>.\<close>

definition example_chunk :: "string \<Rightarrow> int \<Rightarrow> string \<Rightarrow> Document" where
  "example_chunk p n t =
     \<lparr>d_sort_id = Num n, d_id = p, d_page_number = n + 1, d_text = t, d_title = ''Title of '' @ p,
      d_author = ''Author'', d_isbn_number = ''978-0'', d_publication_date = 1700000000\<rparr>"

text \<open>A match and a keyword hit for chunk id \<open>cid\<close> of parent \<open>p\<close>; their metadata differ in
  every field but the parent id.\<close>

definition example_metadata :: "string \<Rightarrow> Metadata" where
  "example_metadata p =
     \<lparr>m_rec_id = p, m_page_number = 3, m_isbn_number = ''978-0'', m_text = ''from the vector store'',
      m_title = ''Title'', m_company_name = ''Publisher'', m_publication_date = 1700000000\<rparr>"

definition example_match :: "string \<Rightarrow> string \<Rightarrow> Match" where
  "example_match cid p = \<lparr>match_id = cid, metadata = Some (example_metadata p)\<rparr>"

definition example_hit :: "string \<Rightarrow> string \<Rightarrow> Hit" where
  "example_hit cid p =
     \<lparr>hit_id = cid,
      hit_source = \<lparr>s_rec_id = p, s_page_number = 4, s_isbn_number = ''978-1'',
                    s_text = ''from the keyword store'', s_title = ''Other title'',
                    s_author = ''Author'', s_publication_date = 1600000000\<rparr>\<rparr>"

text \<open>A journal match with the given DOI, and a relational store that holds one record.\<close>

definition example_sci_match :: "string \<Rightarrow> SciMatch" where
  "example_sci_match d =
     \<lparr>sci_metadata = Some \<lparr>sm_doi = Some d, sm_date = 1700000000, sm_text = ''abstract'',
                            sm_journal = ''Journal''\<rparr>\<rparr>"

definition example_journals :: "string list \<Rightarrow> JournalData list option" where
  "example_journals batch =
     Some (filter (\<lambda>r. doi r \<in> set batch)
             [\<lparr>doi = ''10.1/abc'', title = ''A paper'', authors = [''X'', ''Y'']\<rparr>])"

definition failing_store :: "string list \<Rightarrow> JournalData list option" where
  "failing_store batch = None"

definition example_format :: "int \<Rightarrow> string" where
  "example_format t = ''2023-11''"

section \<open>Properties of numbers\<close>

lemma number_le_simps [simp]:
  "Num a \<le> Num b \<longleftrightarrow> a \<le> b" "Num a < Num b \<longleftrightarrow> a < b"
  by (auto simp: less_number_def)

lemma max_Num: "max (Num a) (Num b) = Num (max a b)"
  by (simp add: max_def)

lemma difference_sign_le: "difference_sign x y \<le> 0 \<longleftrightarrow> x \<le> y"
  by (cases x; cases y) (auto simp: sgn_if)

text \<open>
  Up to \<open>2 ^ 53\<close> in magnitude nothing is rounded.
\<close>

lemma bit_length_2_53: "bit_length 9007199254740992 = 54"
  by (simp add: bit_length.simps)

lemma to_number_2_53: "to_number 9007199254740992 = Num 9007199254740992"
  by (simp add: to_number_def round_magnitude_def Let_def bit_length.simps)

lemma to_number_minus_2_53: "to_number (- 9007199254740992) = Num (- 9007199254740992)"
  by (simp add: to_number_def round_magnitude_def Let_def bit_length.simps)

lemma to_number_exact: "\<bar>n\<bar> \<le> 2 ^ 53 \<Longrightarrow> to_number n = Num n"
proof (cases "\<bar>n\<bar> < 2 ^ 53")
  case True
  then show ?thesis by (auto simp: to_number_def round_magnitude_def Let_def)
next
  case False
  assume "\<bar>n\<bar> \<le> 2 ^ 53"
  with False have "n = 9007199254740992 \<or> n = - 9007199254740992" by auto
  then show ?thesis
    using to_number_2_53 to_number_minus_2_53 by blast
qed

lemma number_add_exact: "\<bar>a + k\<bar> \<le> 2 ^ 53 \<Longrightarrow> number_add (Num a) k = Num (a + k)"
  by (simp add: number_add_def to_number_exact)

lemma number_sub_exact: "\<bar>a - k\<bar> \<le> 2 ^ 53 \<Longrightarrow> number_sub (Num a) k = Num (a - k)"
  by (simp add: number_sub_def to_number_exact)

text \<open>
  The first integer that is no double is \<open>2 ^ 53 + 1\<close>: it lies halfway between two doubles
  and goes to the even one, \<open>2 ^ 53\<close>. So does an index read from these digits.
\<close>

lemma to_number_2_53_plus_1: "to_number (9007199254740992 + 1) = Num 9007199254740992"
  by (simp add: to_number_def round_magnitude_def Let_def bit_length.simps)

lemma parseInt_rounds: "parseInt ''9007199254740993'' = Num 9007199254740992"
  using to_number_2_53_plus_1 by (simp add: parseInt_def digits_value_def digit_val_def)

section \<open>Properties of the identifier model\<close>

subsection \<open>Sets, digits and the index pattern\<close>

lemma set_set_add: "set (set_add x s) = insert x (set s)"
  by (auto simp: set_add_def)

lemma set_fold_set_add: "set (fold set_add xs acc) = set acc \<union> set xs"
  by (induction xs arbitrary: acc) (auto simp: set_set_add)

lemma underscore_not_digit: "\<not> is_digit CHR ''_''"
  by (simp add: is_digit_def)

lemma is_digit_cases:
  "is_digit c \<Longrightarrow> c = CHR ''0'' \<or> c = CHR ''1'' \<or> c = CHR ''2'' \<or> c = CHR ''3'' \<or> c = CHR ''4''
     \<or> c = CHR ''5'' \<or> c = CHR ''6'' \<or> c = CHR ''7'' \<or> c = CHR ''8'' \<or> c = CHR ''9''"
  unfolding is_digit_def by simp

lemma digit_val_nonneg: "is_digit c \<Longrightarrow> 0 \<le> digit_val c"
proof -
  assume "is_digit c"
  then have "c = CHR ''0'' \<or> c = CHR ''1'' \<or> c = CHR ''2'' \<or> c = CHR ''3'' \<or> c = CHR ''4''
     \<or> c = CHR ''5'' \<or> c = CHR ''6'' \<or> c = CHR ''7'' \<or> c = CHR ''8'' \<or> c = CHR ''9''"
    by (rule is_digit_cases)
  then show ?thesis
    unfolding digit_val_def by (elim disjE) simp_all
qed

lemma digits_value_foldl_nonneg:
  "\<forall>c\<in>set ds. is_digit c \<Longrightarrow> 0 \<le> n \<Longrightarrow> 0 \<le> foldl (\<lambda>n c. 10 * n + digit_val c) n ds"
proof (induction ds arbitrary: n)
  case Nil then show ?case by simp
next
  case (Cons c ds)
  from Cons.prems have "0 \<le> digit_val c" by (simp add: digit_val_nonneg)
  with Cons show ?case by simp
qed

lemma digits_value_nonneg: "\<forall>c\<in>set ds. is_digit c \<Longrightarrow> 0 \<le> digits_value ds"
  by (simp add: digits_value_def digits_value_foldl_nonneg)

lemma match_index_suffix:
  assumes "ds \<noteq> []" and "\<forall>c\<in>set ds. is_digit c"
  shows "match_index (pre @ ''_'' @ ds) = Some ds"
proof -
  have r: "rev (pre @ ''_'' @ ds) = rev ds @ CHR ''_'' # rev pre" by simp
  have t: "takeWhile is_digit (rev ds @ CHR ''_'' # rev pre) = rev ds"
    using assms(2) by (simp add: takeWhile_tail underscore_not_digit)
  have d: "dropWhile is_digit (rev ds @ CHR ''_'' # rev pre) = CHR ''_'' # rev pre"
    using assms(2) by (simp add: dropWhile_append3 underscore_not_digit)
  show ?thesis
    unfolding match_index_def r t d using assms(1) by simp
qed

text \<open>
  Conversely, whenever the pattern matches, the id is a prefix, an underscore and the digits
  captured; so an id either has this form or yields an empty range.
\<close>

lemma match_index_SomeD:
  assumes "match_index s = Some m"
  shows "m \<noteq> [] \<and> (\<forall>c\<in>set m. is_digit c) \<and> (\<exists>pre. s = pre @ ''_'' @ m)"
proof -
  let ?t = "takeWhile is_digit (rev s)" and ?d = "dropWhile is_digit (rev s)"
  from assms have m: "m = rev ?t" and ne: "m \<noteq> []" and f: "rev ?d \<noteq> []" "last (rev ?d) = CHR ''_''"
    by (auto simp: match_index_def Let_def split: if_splits)
  have dig: "\<forall>c\<in>set m. is_digit c" unfolding m by (auto dest: set_takeWhileD)
  from f obtain pre where pre: "rev ?d = pre @ ''_''"
    by (metis append_butlast_last_id append_Cons append_Nil)
  have "rev s = ?t @ ?d" by simp
  then have "s = rev ?d @ rev ?t" by (metis rev_append rev_rev_ident)
  with pre m have "s = pre @ ''_'' @ m" by simp
  with ne dig show ?thesis by blast
qed

lemma lastIndexOf_suffix:
  assumes "c \<notin> set ds"
  shows "lastIndexOf (pre @ c # ds) c = int (length pre)"
proof -
  have "takeWhile (\<lambda>x. x \<noteq> c) (rev ds @ c # rev pre) = rev ds"
    using assms by (subst takeWhile_tail) auto
  then show ?thesis by (simp add: lastIndexOf_def)
qed

text \<open>
  The decimal rendering of a non-negative integer consists of digits and has that integer as
  its value, so \<open>pre_N\<close> written canonically is an id of the form above with
  \<open>digits_value ds = N\<close>.
\<close>

lemma digit_char:
  assumes "k < 10"
  shows "is_digit (''0123456789'' ! k) \<and> digit_val (''0123456789'' ! k) = int k"
proof -
  from assms have "k = 0 \<or> k = 1 \<or> k = 2 \<or> k = 3 \<or> k = 4 \<or> k = 5 \<or> k = 6 \<or> k = 7 \<or> k = 8 \<or> k = 9"
    by arith
  then show ?thesis
    by (elim disjE) (simp_all add: is_digit_def digit_val_def)
qed

lemma digits_of_digits: "digits_of n \<noteq> [] \<and> (\<forall>c\<in>set (digits_of n). is_digit c)"
proof (induction n rule: digits_of.induct)
  case (1 n)
  show ?case
  proof (cases "n < 10")
    case True
    then show ?thesis by (subst (1 2) digits_of.simps) (simp add: digit_char)
  next
    case False
    with 1 show ?thesis by (subst (1 2) digits_of.simps) (simp add: digit_char)
  qed
qed

lemma digits_value_snoc: "digits_value (xs @ [c]) = 10 * digits_value xs + digit_val c"
  by (simp add: digits_value_def)

lemma digits_value_digits_of: "digits_value (digits_of n) = int n"
proof (induction n rule: digits_of.induct)
  case (1 n)
  show ?case
  proof (cases "n < 10")
    case True
    then have "digits_value [''0123456789'' ! n] = int n"
      using digits_value_snoc[of "[]"] by (simp add: digit_char digits_value_def)
    with True show ?thesis by (subst digits_of.simps) simp
  next
    case False
    then have "digits_value (digits_of n) = 10 * digits_value (digits_of (n div 10)) + digit_val (''0123456789'' ! (n mod 10))"
      by (subst digits_of.simps) (simp add: digits_value_snoc)
    also have "\<dots> = 10 * int (n div 10) + int (n mod 10)"
      using 1 False by (simp add: digit_char)
    also have "\<dots> = int n" by presburger
    finally show ?thesis .
  qed
qed

subsection \<open>The loop\<close>

text \<open>
  With an upper bound that is a safe integer, the loop ends and adds exactly the ids of the
  indices it runs through.
\<close>

lemma getIdRange_loop_safe:
  assumes "0 \<le> a" and "h \<le> MAX_SAFE_INTEGER"
  shows "\<exists>r. getIdRange_loop pre (Num a) (Num h) acc = Some r
           \<and> set r = set acc \<union> (\<lambda>j. pre @ num_to_string (Num j)) ` {a..h}"
  using assms
proof (induction "nat (h + 1 - a)" arbitrary: a acc)
  case 0
  then have "\<not> a \<le> h" by simp
  then show ?case by (subst getIdRange_loop.simps) simp
next
  case (Suc n)
  then have le: "a \<le> h" by simp
  from Suc.prems le have "\<bar>a + 1\<bar> \<le> 2 ^ 53" by (simp add: MAX_SAFE_INTEGER_def)
  then have step: "number_add (Num a) 1 = Num (a + 1)" by (rule number_add_exact)
  from Suc.hyps(2) have "n = nat (h + 1 - (a + 1))" by simp
  moreover from Suc.prems have "0 \<le> a + 1" by simp
  ultimately obtain r where r: "getIdRange_loop pre (Num (a + 1)) (Num h)
        (set_add (pre @ num_to_string (Num a)) acc) = Some r"
    "set r = set (set_add (pre @ num_to_string (Num a)) acc)
               \<union> (\<lambda>j. pre @ num_to_string (Num j)) ` {a + 1..h}"
    using Suc.hyps(1) Suc.prems(2) by blast
  from le have "{a..h} = insert a {a + 1..h}" by auto
  with r(2) have "set r = set acc \<union> (\<lambda>j. pre @ num_to_string (Num j)) ` {a..h}"
    by (simp add: set_set_add)
  moreover have "getIdRange_loop pre (Num a) (Num h) acc = Some r"
    using le r(1) by (subst getIdRange_loop.simps) (simp add: step)
  ultimately show ?case by blast
qed

lemma getIdRange_loop_once:
  assumes "0 \<le> n" and "n \<le> MAX_SAFE_INTEGER"
  shows "getIdRange_loop pre (Num n) (Num n) [] = Some [pre @ num_to_string (Num n)]"
proof -
  from assms have "\<bar>n + 1\<bar> \<le> 2 ^ 53" by (simp add: MAX_SAFE_INTEGER_def)
  then have step: "number_add (Num n) 1 = Num (n + 1)" by (rule number_add_exact)
  have "getIdRange_loop pre (Num (n + 1)) (Num n) [pre @ num_to_string (Num n)]
        = Some [pre @ num_to_string (Num n)]"
    by (subst getIdRange_loop.simps) simp
  then show ?thesis
    by (subst getIdRange_loop.simps) (simp add: step set_add_def)
qed

text \<open>
  When the increment leaves the counter unchanged at or below the upper bound, the loop
  never ends.
\<close>

lemma getIdRange_loop_stuck:
  assumes "i \<le> hi" and "number_add i 1 = i"
  shows "getIdRange_loop pre i hi idRange = None"
proof (cases "getIdRange_loop pre i hi idRange")
  case None
  then show ?thesis .
next
  case (Some r)
  have "\<not> (i \<le> hi \<and> number_add i 1 = i)"
    by (rule getIdRange_loop.raw_induct
          [where P = "\<lambda>pre i hi idRange r. \<not> (i \<le> hi \<and> number_add i 1 = i)", OF _ Some])
       (auto split: if_splits)
  with assms show ?thesis by simp
qed

subsection \<open>The range of an id\<close>

lemma getIdRange_suffix:
  assumes "ds \<noteq> []" and "\<forall>c\<in>set ds. is_digit c"
  shows "getIdRange (pre @ ''_'' @ ds) k =
         getIdRange_loop (pre @ ''_'') (max (Num 0) (number_sub (parseInt ds) k))
           (number_add (parseInt ds) k) []"
proof -
  have "CHR ''_'' \<notin> set ds" using assms(2) underscore_not_digit by blast
  then have "lastIndexOf (pre @ ''_'' @ ds) CHR ''_'' = int (length pre)"
    using lastIndexOf_suffix by simp
  moreover have "nat (int (length pre) + 1) = Suc (length pre)" by simp
  ultimately have "substring0 (pre @ ''_'' @ ds) (lastIndexOf (pre @ ''_'' @ ds) CHR ''_'' + 1) = pre @ ''_''"
    unfolding substring0_def by simp
  then show ?thesis
    unfolding getIdRange_def match_index_suffix[OF assms] by (simp add: Let_def)
qed

lemma getIdRange_safe:
  assumes "ds \<noteq> []" and "\<forall>c\<in>set ds. is_digit c" and "0 \<le> k"
    and "digits_value ds + k \<le> MAX_SAFE_INTEGER"
  shows "getIdRange (pre @ ''_'' @ ds) k =
         getIdRange_loop (pre @ ''_'') (Num (max 0 (digits_value ds - k)))
           (Num (digits_value ds + k)) []"
proof -
  let ?N = "digits_value ds"
  have n: "0 \<le> ?N" using assms(2) by (rule digits_value_nonneg)
  with assms(3,4) have "\<bar>?N\<bar> \<le> 2 ^ 53" "\<bar>?N - k\<bar> \<le> 2 ^ 53" "\<bar>?N + k\<bar> \<le> 2 ^ 53"
    by (simp_all add: MAX_SAFE_INTEGER_def)
  then have "parseInt ds = Num ?N" "number_sub (Num ?N) k = Num (?N - k)"
    "number_add (Num ?N) k = Num (?N + k)"
    by (simp_all add: parseInt_def to_number_exact number_sub_exact number_add_exact)
  then show ?thesis
    unfolding getIdRange_suffix[OF assms(1,2)] by (simp add: max_Num)
qed

lemma getIdRange_safe_set:
  assumes "ds \<noteq> []" and "\<forall>c\<in>set ds. is_digit c" and "0 \<le> k"
    and "digits_value ds + k \<le> MAX_SAFE_INTEGER"
  shows "map_option set (getIdRange (pre @ ''_'' @ ds) k) =
         Some ((\<lambda>i. pre @ ''_'' @ num_to_string (Num i))
                 ` {max 0 (digits_value ds - k) .. digits_value ds + k})"
proof -
  obtain r where "getIdRange_loop (pre @ ''_'') (Num (max 0 (digits_value ds - k)))
           (Num (digits_value ds + k)) [] = Some r"
    and "set r = set [] \<union> (\<lambda>j. (pre @ ''_'') @ num_to_string (Num j))
                 ` {max 0 (digits_value ds - k) .. digits_value ds + k}"
    using getIdRange_loop_safe[of "max 0 (digits_value ds - k)" "digits_value ds + k" "pre @ ''_''" "[]"]
      assms(4) by auto
  then show ?thesis
    unfolding getIdRange_safe[OF assms] by simp
qed

lemma getIdRange_canonical:
  assumes "0 \<le> N" and "0 \<le> k" and "N + k \<le> MAX_SAFE_INTEGER"
  shows "map_option set (getIdRange (pre @ ''_'' @ num_to_string (Num N)) k) =
         Some ((\<lambda>i. pre @ ''_'' @ num_to_string (Num i)) ` {max 0 (N - k) .. N + k})"
proof -
  from assms(1) have n: "num_to_string (Num N) = digits_of (nat N)" by (simp add: num_to_string_def)
  have p: "digits_value (digits_of (nat N)) = N" using assms(1) by (simp add: digits_value_digits_of)
  have "map_option set (getIdRange (pre @ ''_'' @ digits_of (nat N)) k) =
         Some ((\<lambda>i. pre @ ''_'' @ num_to_string (Num i))
                 ` {max 0 (digits_value (digits_of (nat N)) - k) .. digits_value (digits_of (nat N)) + k})"
    using digits_of_digits assms(2,3) by (intro getIdRange_safe_set) (simp_all add: p)
  then show ?thesis unfolding n p .
qed

lemma getIdRange_returns:
  assumes "0 \<le> extK" and "safe_index cid extK"
  shows "getIdRange cid extK \<noteq> None"
proof (cases "match_index cid")
  case None
  then show ?thesis by (simp add: getIdRange_def)
next
  case (Some m)
  then obtain pre where m: "m \<noteq> []" "\<forall>c\<in>set m. is_digit c" "cid = pre @ ''_'' @ m"
    using match_index_SomeD by blast
  from assms(2) Some have "digits_value m + extK \<le> MAX_SAFE_INTEGER"
    by (simp add: safe_index_def)
  with m(1,2) assms(1) have "map_option set (getIdRange (pre @ ''_'' @ m) extK) =
         Some ((\<lambda>i. pre @ ''_'' @ num_to_string (Num i))
                 ` {max 0 (digits_value m - extK) .. digits_value m + extK})"
    by (rule getIdRange_safe_set)
  then show ?thesis unfolding m(3) by auto
qed

lemmas getIdRange_eval =
  getIdRange_def match_index_def is_digit_def parseInt_def digits_value_def digit_val_def
  to_number_exact number_sub_exact number_add_exact max_Num lastIndexOf_def substring0_def
  getIdRange_loop.simps num_to_string_def digits_of.simps set_add_def Let_def

text \<open>
  At the index \<open>2 ^ 53 = 9007199254740992\<close> the counter reaches \<open>2 ^ 53\<close>, where \<open>i++\<close>
  gives \<open>2 ^ 53\<close> again, while the upper bound is \<open>2 ^ 53\<close> as well, for \<open>k = 0\<close> and for
  \<open>k = 1\<close> (where \<open>2 ^ 53 + 1\<close> is rounded). \<open>getIdRange\<close> does not return.
\<close>

lemma digits_value_2_53: "digits_value ''9007199254740992'' = 9007199254740992"
  by (simp add: digits_value_def digit_val_def)

lemma is_digit_2_53: "\<forall>c\<in>set ''9007199254740992''. is_digit c"
  by (simp add: is_digit_def)

lemma getIdRange_2_53_zero: "getIdRange (''doc'' @ ''_'' @ ''9007199254740992'') 0 = None"
proof -
  have p: "parseInt ''9007199254740992'' = Num 9007199254740992"
    by (simp add: parseInt_def digits_value_2_53 to_number_2_53)
  have lo: "number_sub (Num 9007199254740992) 0 = Num 9007199254740992"
    by (simp add: number_sub_def to_number_2_53)
  have hi: "number_add (Num 9007199254740992) 0 = Num 9007199254740992"
    by (simp add: number_add_def to_number_2_53)
  have "number_add (Num 9007199254740992) 1 = Num 9007199254740992"
    using to_number_2_53_plus_1 by (simp add: number_add_def)
  then have "getIdRange_loop (''doc'' @ ''_'') (Num 9007199254740992) (Num 9007199254740992) [] = None"
    by (intro getIdRange_loop_stuck) simp_all
  moreover have "getIdRange (''doc'' @ ''_'' @ ''9007199254740992'') 0 =
      getIdRange_loop (''doc'' @ ''_'') (max (Num 0) (number_sub (parseInt ''9007199254740992'') 0))
        (number_add (parseInt ''9007199254740992'') 0) []"
    using is_digit_2_53 by (intro getIdRange_suffix) simp_all
  ultimately show ?thesis
    unfolding p lo hi max_Num by simp
qed

lemma getIdRange_2_53_one: "getIdRange (''doc'' @ ''_'' @ ''9007199254740992'') 1 = None"
proof -
  have p: "parseInt ''9007199254740992'' = Num 9007199254740992"
    by (simp add: parseInt_def digits_value_2_53 to_number_2_53)
  have lo: "number_sub (Num 9007199254740992) 1 = Num 9007199254740991"
    by (simp add: number_sub_exact)
  have hi: "number_add (Num 9007199254740992) 1 = Num 9007199254740992"
    using to_number_2_53_plus_1 by (simp add: number_add_def)
  have step: "number_add (Num 9007199254740991) 1 = Num 9007199254740992"
    by (simp add: number_add_exact)
  have "getIdRange_loop (''doc'' @ ''_'') (Num 9007199254740992) (Num 9007199254740992) acc = None"
    for acc
    using hi by (intro getIdRange_loop_stuck) simp_all
  then have "getIdRange_loop (''doc'' @ ''_'') (Num 9007199254740991) (Num 9007199254740992) [] = None"
    by (subst getIdRange_loop.simps) (simp add: step)
  moreover have "getIdRange (''doc'' @ ''_'' @ ''9007199254740992'') 1 =
      getIdRange_loop (''doc'' @ ''_'') (max (Num 0) (number_sub (parseInt ''9007199254740992'') 1))
        (number_add (parseInt ''9007199254740992'') 1) []"
    using is_digit_2_53 by (intro getIdRange_suffix) simp_all
  ultimately show ?thesis
    unfolding p lo hi max_Num by simp
qed

text \<open>
  Claim C5, as stated, is about every index \<open>N\<close>. At the index \<open>2 ^ 53\<close> and \<open>k = 1\<close> the
  loop of \<open>getIdRange\<close> never ends, and no ids are returned.
\<close>

theorem getIdRange_window_counterexample:
  "getIdRange ''doc_9007199254740992'' 1 = None"
  using getIdRange_2_53_one by simp

text \<open>
  Claim C5, amended. For a chunk id \<open>pre_ds\<close> whose index \<open>ds\<close> is a non-empty string of
  digits with value \<open>N\<close>, and for \<open>k > 0\<close> with \<open>N + k\<close> at most \<open>MAX_SAFE_INTEGER\<close>,
  \<open>getIdRange\<close> returns, and it returns exactly the ids \<open>pre_i\<close> for \<open>i\<close> from
  \<open>max 0 (N - k)\<close> to \<open>N + k\<close>: the lower index is clamped at zero.
\<close>

theorem getIdRange_window:
  assumes "ds \<noteq> []" and "\<forall>c\<in>set ds. is_digit c" and "0 < k"
    and "digits_value ds + k \<le> MAX_SAFE_INTEGER"
  shows "map_option set (getIdRange (pre @ ''_'' @ ds) k) =
         Some ((\<lambda>i. pre @ ''_'' @ num_to_string (Num i))
                 ` {max 0 (digits_value ds - k) .. digits_value ds + k})"
  using assms by (intro getIdRange_safe_set) simp_all

text \<open>
  The two examples of the specification: \<open>doc123_5\<close> with \<open>k = 1\<close> and \<open>doc123_0\<close> with
  \<open>k = 2\<close>, where the lower bound is clamped.
\<close>

theorem getIdRange_window_witness:
  "map_option set (getIdRange ''doc123_5'' 1) = Some {''doc123_4'', ''doc123_5'', ''doc123_6''}
   \<and> map_option set (getIdRange ''doc123_0'' 2) = Some {''doc123_0'', ''doc123_1'', ''doc123_2''}"
proof -
  have i1: "{4..6::int} = {4, 5, 6}" and i2: "{0..2::int} = {0, 1, 2}" by auto
  have n: "num_to_string (Num 4) = ''4''" "num_to_string (Num 5) = ''5''"
     "num_to_string (Num 6) = ''6''" "num_to_string (Num 0) = ''0''"
     "num_to_string (Num 1) = ''1''" "num_to_string (Num 2) = ''2''"
    by (simp_all add: num_to_string_def digits_of.simps)
  have p: "digits_value ''5'' = 5" "digits_value ''0'' = 0"
    by (simp_all add: digits_value_def digit_val_def)
  have a: "map_option set (getIdRange (''doc123'' @ ''_'' @ ''5'') 1)
           = Some {''doc123_4'', ''doc123_5'', ''doc123_6''}"
    using getIdRange_window[of "''5''" 1 "''doc123''"]
    by (simp add: is_digit_def MAX_SAFE_INTEGER_def p i1 n)
  have b: "map_option set (getIdRange (''doc123'' @ ''_'' @ ''0'') 2)
           = Some {''doc123_0'', ''doc123_1'', ''doc123_2''}"
    using getIdRange_window[of "''0''" 2 "''doc123''"]
    by (simp add: is_digit_def MAX_SAFE_INTEGER_def p i2 n)
  from a b show ?thesis by simp
qed

text \<open>
  Claim C4, as stated, asks for the empty set at \<open>k = 0\<close> and for a total function.
  \<open>getIdRange\<close> itself returns the one id \<open>doc123_5\<close> for \<open>doc123_5\<close> and \<open>0\<close>, and for
  the index \<open>2 ^ 53\<close> it does not return, at \<open>k = 0\<close> too.
\<close>

theorem getIdRange_zero_counterexample:
  "getIdRange ''doc123_5'' 0 = Some [''doc123_5'']
   \<and> getIdRange ''doc_9007199254740992'' 0 = None"
proof -
  have p: "digits_value ''5'' = 5" by (simp add: digits_value_def digit_val_def)
  have n: "num_to_string (Num 5) = ''5''" by (simp add: num_to_string_def digits_of.simps)
  have "getIdRange (''doc123'' @ ''_'' @ ''5'') 0 =
         getIdRange_loop (''doc123'' @ ''_'') (Num (max 0 (digits_value ''5'' - 0)))
           (Num (digits_value ''5'' + 0)) []"
    by (rule getIdRange_safe) (simp_all add: is_digit_def MAX_SAFE_INTEGER_def p)
  moreover have "getIdRange_loop (''doc123'' @ ''_'') (Num 5) (Num 5) []
      = Some [(''doc123'' @ ''_'') @ num_to_string (Num 5)]"
    by (rule getIdRange_loop_once) (simp_all add: MAX_SAFE_INTEGER_def)
  ultimately have "getIdRange ''doc123_5'' 0 = Some [''doc123_5'']"
    by (simp add: p n)
  with getIdRange_2_53_zero show ?thesis by simp
qed

text \<open>
  Claim C4, amended. At \<open>k = 0\<close> the range of an id \<open>pre_ds\<close> whose index \<open>N\<close> is at most
  \<open>MAX_SAFE_INTEGER\<close> is the single id \<open>pre_N\<close>, with \<open>N\<close> written canonically; an id
  without the index pattern has an empty range for every \<open>k\<close>. \<open>getIdRange\<close> is a function of
  its two arguments, and it returns for every \<open>k\<close> from \<open>0\<close> on and every id that has no
  index or whose index \<open>N\<close> has \<open>N + k\<close> at most \<open>MAX_SAFE_INTEGER\<close>. That no expansion
  happens at \<open>extK = 0\<close> is the work of the guard \<open>extK > 0\<close> in \<open>search\<close>: when the
  guard fails nothing is requested.
\<close>

theorem getIdRange_zero:
  "(ds \<noteq> [] \<and> (\<forall>c\<in>set ds. is_digit c) \<and> digits_value ds \<le> MAX_SAFE_INTEGER
      \<longrightarrow> getIdRange (pre @ ''_'' @ ds) 0
            = Some [pre @ ''_'' @ num_to_string (Num (digits_value ds))])
   \<and> (match_index cid = None \<longrightarrow> getIdRange cid extK = Some [])
   \<and> (0 \<le> extK \<and> safe_index cid extK \<longrightarrow> getIdRange cid extK \<noteq> None)
   \<and> (extK \<le> 0 \<longrightarrow> mget_ids id_set extK = Some No_request)"
proof (intro conjI impI)
  assume a: "ds \<noteq> [] \<and> (\<forall>c\<in>set ds. is_digit c) \<and> digits_value ds \<le> MAX_SAFE_INTEGER"
  then have n: "0 \<le> digits_value ds" by (simp add: digits_value_nonneg)
  have "getIdRange (pre @ ''_'' @ ds) 0 =
         getIdRange_loop (pre @ ''_'') (Num (max 0 (digits_value ds - 0)))
           (Num (digits_value ds + 0)) []"
    using a by (intro getIdRange_safe) simp_all
  moreover have "getIdRange_loop (pre @ ''_'') (Num (digits_value ds)) (Num (digits_value ds)) []
      = Some [(pre @ ''_'') @ num_to_string (Num (digits_value ds))]"
    using n a by (intro getIdRange_loop_once) simp_all
  ultimately show "getIdRange (pre @ ''_'' @ ds) 0
      = Some [pre @ ''_'' @ num_to_string (Num (digits_value ds))]"
    using n by simp
next
  assume "match_index cid = None"
  then show "getIdRange cid extK = Some []" by (simp add: getIdRange_def)
next
  assume "0 \<le> extK \<and> safe_index cid extK"
  then show "getIdRange cid extK \<noteq> None" by (simp add: getIdRange_returns)
next
  assume "extK \<le> 0"
  then show "mget_ids id_set extK = Some No_request" by (simp add: mget_ids_def)
qed

theorem getIdRange_zero_witness:
  "getIdRange ''doc123_5'' 0 = Some [''doc123_5'']
   \<and> getIdRange ''doc123'' 0 = Some []
   \<and> getIdRange ''doc123_5'' 3 \<noteq> None
   \<and> mget_ids [''doc123_5''] 0 = Some No_request"
proof -
  have p: "digits_value ''5'' = 5" by (simp add: digits_value_def digit_val_def)
  have n: "num_to_string (Num 5) = ''5''" by (simp add: num_to_string_def digits_of.simps)
  have m: "match_index ''doc123'' = None" by (simp add: match_index_def is_digit_def)
  have s: "safe_index ''doc123_5'' 3"
    by (simp add: safe_index_def match_index_def is_digit_def p MAX_SAFE_INTEGER_def)
  have a: "getIdRange (''doc123'' @ ''_'' @ ''5'') 0
            = Some [''doc123'' @ ''_'' @ num_to_string (Num (digits_value ''5''))]
           \<and> getIdRange ''doc123'' 0 = Some []
           \<and> mget_ids [''doc123_5''] 0 = Some No_request"
    using getIdRange_zero[where ds = "''5''" and pre = "''doc123''" and cid = "''doc123''"
            and extK = 0 and id_set = "[''doc123_5'']"]
    by (simp add: is_digit_def MAX_SAFE_INTEGER_def p m)
  have b: "getIdRange ''doc123_5'' 3 \<noteq> None"
    using getIdRange_zero[where cid = "''doc123_5''" and extK = 3] s by simp
  from a b show ?thesis by (simp add: p n)
qed

section \<open>Properties of the filter translation\<close>

text \<open>
  Claim C1. With neither \<open>filter\<close> nor \<open>datefilter\<close> supplied, \<open>filters\<close> is the empty
  array. An empty array is truthy, so the test \<open>filters ? ... : ...\<close> takes the branch with
  the filter clause and \<open>if (filters)\<close> sets the filter key: the keyword-store body carries
  \<open>filter: []\<close> and the vector-store options carry \<open>filter: { $and: [] }\<close>. The branch
  without a filter clause is never taken.
\<close>

theorem no_filter_sends_empty_filter:
  "build_filters None None = []
   \<and> bool_filter (search_body full_text_query topK (build_filters None None)) = Some []
   \<and> qo_filter (search_queryOptions searchVector topK (build_filters None None))
       = Some \<lparr>pc_and = []\<rparr>"
  by (simp add: build_filters_def truthy_optional_def search_body_def search_queryOptions_def
        truthy_object_def filterToPCQuery_def)

text \<open>
  The journal handler, by contrast, leaves the filter key out when no filter or an empty
  one is supplied.
\<close>

lemma sci_no_filter_omits_key:
  "sci_query_filter None = None
   \<and> sci_query_filter (Some \<lparr>sf_journal = None, sf_date = None\<rparr>) = None"
  by (simp add: sci_query_filter_def keys_length_def)

text \<open>
  Claim C9. For every range entry of the canonical filter, the vector-store filter holds a
  condition for its field with exactly the bounds that are present and not zero: a bound
  \<open>0\<close> is dropped like an absent one, and that side is unbounded.
\<close>

theorem falsy_bound_dropped:
  assumes "item \<in> set filters" and "f_range item = Some rs" and "(field, r) \<in> set rs"
  shows "(field, \<lparr>c_in = None,
                  c_gte = (if r_gte r = Some 0 then None else r_gte r),
                  c_lte = (if r_lte r = Some 0 then None else r_lte r)\<rparr>)
         \<in> set (pc_and (filterToPCQuery filters))"
proof -
  have "rangeConditions r = \<lparr>c_in = None,
                  c_gte = (if r_gte r = Some 0 then None else r_gte r),
                  c_lte = (if r_lte r = Some 0 then None else r_lte r)\<rparr>"
    by (auto simp: rangeConditions_def truthy_number_def split: option.splits)
  moreover from assms(3) have "(field, rangeConditions r) \<in> (\<lambda>(field, r). (field, rangeConditions r)) ` set rs"
    by force
  then have "(field, rangeConditions r) \<in> set (item_conditions item)"
    by (simp add: item_conditions_def assms(2))
  then have "(field, rangeConditions r) \<in> set (pc_and (filterToPCQuery filters))"
    using assms(1) by (auto simp: filterToPCQuery_def)
  ultimately show ?thesis by simp
qed

text \<open>
  A date filter \<open>{ publication_date: { gte: 0, lte: 1700000000 } }\<close> translates to
  \<open>{ $and: [{ publication_date: { $lte: 1700000000 } }] }\<close>.
\<close>

theorem falsy_bound_dropped_witness:
  "filterToPCQuery (build_filters None (Some [(''publication_date'', \<lparr>r_gte = Some 0, r_lte = Some 1700000000\<rparr>)]))
     = \<lparr>pc_and = [(''publication_date'', \<lparr>c_in = None, c_gte = None, c_lte = Some 1700000000\<rparr>)]\<rparr>
   \<and> (''publication_date'', \<lparr>c_in = None, c_gte = None, c_lte = Some 1700000000\<rparr>)
       \<in> set (pc_and (filterToPCQuery
             (build_filters None (Some [(''publication_date'', \<lparr>r_gte = Some 0, r_lte = Some 1700000000\<rparr>)]))))"
proof -
  let ?r = "\<lparr>r_gte = Some 0, r_lte = Some 1700000000\<rparr>"
  let ?item = "\<lparr>f_terms = None, f_range = Some [(''publication_date'', ?r)]\<rparr>"
  have b: "build_filters None (Some [(''publication_date'', ?r)]) = [?item]"
    by (simp add: build_filters_def truthy_optional_def truthy_object_def)
  have "(''publication_date'', \<lparr>c_in = None,
                  c_gte = (if r_gte ?r = Some 0 then None else r_gte ?r),
                  c_lte = (if r_lte ?r = Some 0 then None else r_lte ?r)\<rparr>)
         \<in> set (pc_and (filterToPCQuery [?item]))"
    by (rule falsy_bound_dropped[where item = ?item and rs = "[(''publication_date'', ?r)]"]) simp_all
  moreover have "filterToPCQuery [?item]
     = \<lparr>pc_and = [(''publication_date'', \<lparr>c_in = None, c_gte = None, c_lte = Some 1700000000\<rparr>)]\<rparr>"
    by (simp add: filterToPCQuery_def item_conditions_def rangeConditions_def truthy_number_def)
  ultimately show ?thesis unfolding b by simp
qed

section \<open>Properties of the union and deduplication\<close>

subsection \<open>The two loops\<close>

lemma pinecone_loop_tagged_ids:
  "set (fst (pinecone_loop_tagged ms (ids, docs))) = set ids \<union> match_id ` set ms"
  by (induction ms arbitrary: ids docs) (auto simp: set_set_add)

lemma pinecone_loop_tagged_docs:
  "snd (pinecone_loop_tagged ms (ids, docs)) = docs @ concat (map tagged_of_match ms)"
  by (induction ms arbitrary: ids docs) (auto simp: tagged_of_match_def split: option.splits)


lemma fulltext_loop_tagged_seen:
  "X \<in> set ids \<Longrightarrow>
   filter (\<lambda>(c, d). c = X) (snd (fulltext_loop_tagged hs (ids, docs))) = filter (\<lambda>(c, d). c = X) docs"
  by (induction hs arbitrary: ids docs) (auto simp: set_set_add set_has_def)

lemma fulltext_loop_tagged_distinct:
  "distinct (map fst docs) \<Longrightarrow> fst ` set docs \<subseteq> set ids \<Longrightarrow>
   distinct (map fst (snd (fulltext_loop_tagged hs (ids, docs))))"
proof (induction hs arbitrary: ids docs)
  case Nil
  then show ?case by simp
next
  case (Cons h hs)
  show ?case
  proof (cases "set_has ids (hit_id h)")
    case True
    with Cons show ?thesis by simp
  next
    case False
    let ?docs = "docs @ [(hit_id h, fulltext_document (hit_id h) (hit_source h))]"
    from False Cons.prems have "distinct (map fst ?docs)"
      by (auto simp: set_has_def)
    moreover from Cons.prems have "fst ` set ?docs \<subseteq> set (set_add (hit_id h) ids)"
      by (auto simp: set_set_add)
    ultimately have "distinct (map fst (snd (fulltext_loop_tagged hs (set_add (hit_id h) ids, ?docs))))"
      by (rule Cons.IH)
    with False show ?thesis by simp
  qed
qed

text \<open>
  Dropping the tags of the tagged run gives the run of the code.
\<close>

lemma pinecone_loop_erase:
  "pinecone_loop ms (ids, map snd docs) =
   (fst (pinecone_loop_tagged ms (ids, docs)), map snd (snd (pinecone_loop_tagged ms (ids, docs))))"
proof (induction ms arbitrary: ids docs)
  case Nil
  then show ?case by simp
next
  case (Cons m ms)
  show ?case
  proof (cases "metadata m")
    case None
    then show ?thesis using Cons.IH[of "set_add (match_id m) ids" docs] by simp
  next
    case (Some md)
    then show ?thesis
      using Cons.IH[of "set_add (match_id m) ids"
                       "docs @ [(match_id m, pinecone_document (match_id m) md)]"]
      by simp
  qed
qed

lemma fulltext_loop_erase:
  "fulltext_loop hs (ids, map snd docs) =
   (fst (fulltext_loop_tagged hs (ids, docs)), map snd (snd (fulltext_loop_tagged hs (ids, docs))))"
proof (induction hs arbitrary: ids docs)
  case Nil
  then show ?case by simp
next
  case (Cons h hs)
  show ?case
  proof (cases "set_has ids (hit_id h)")
    case True
    then show ?thesis using Cons.IH[of ids docs] by simp
  next
    case False
    then show ?thesis
      using Cons.IH[of "set_add (hit_id h) ids"
                       "docs @ [(hit_id h, fulltext_document (hit_id h) (hit_source h))]"]
      by simp
  qed
qed

lemma reduce_hits_tagged_erase:
  "reduce_hits matches hits =
   (fst (reduce_hits_tagged matches hits), map snd (snd (reduce_hits_tagged matches hits)))"
proof -
  obtain ids docs where p: "pinecone_loop_tagged matches ([], []) = (ids, docs)"
    by (cases "pinecone_loop_tagged matches ([], [])")
  have "pinecone_loop matches ([], []) = (ids, map snd docs)"
    using pinecone_loop_erase[of matches "[]" "[]"] p by simp
  then show ?thesis
    by (simp add: reduce_hits_def reduce_hits_tagged_def p fulltext_loop_erase)
qed

lemma tagged_of_match_fst: "fst ` set (tagged_of_match m) \<subseteq> {match_id m}"
  by (auto simp: tagged_of_match_def split: option.splits)

lemma filter_tagged_concat:
  "filter (\<lambda>(c, d). c = X) (concat (map tagged_of_match ms)) =
   concat (map tagged_of_match (filter (\<lambda>m. match_id m = X) ms))"
  by (induction ms) (auto simp: tagged_of_match_def split: option.splits)

lemma distinct_concat_tagged:
  "distinct (map match_id ms) \<Longrightarrow> distinct (map fst (concat (map tagged_of_match ms)))"
proof (induction ms)
  case Nil
  then show ?case by simp
next
  case (Cons m ms)
  have "fst ` set (concat (map tagged_of_match ms)) \<subseteq> match_id ` set ms"
    using tagged_of_match_fst by fastforce
  with Cons show ?case
    by (auto simp: tagged_of_match_def split: option.splits)
qed

lemma filter_distinct_member:
  "distinct (map f xs) \<Longrightarrow> x \<in> set xs \<Longrightarrow> filter (\<lambda>y. f y = f x) xs = [x]"
proof (induction xs)
  case Nil
  then show ?case by simp
next
  case (Cons a xs)
  show ?case
  proof (cases "a = x")
    case True
    with Cons.prems have "f x \<notin> f ` set xs" by simp
    then have "\<forall>y\<in>set xs. f y \<noteq> f x" by (metis imageI)
    then have "filter (\<lambda>y. f y = f x) xs = []"
      by (simp add: filter_empty_conv)
    with True show ?thesis by simp
  next
    case False
    with Cons show ?thesis by auto
  qed
qed

text \<open>
  For a chunk id returned by the vector store, the documents of that id are the ones built
  from its matches, whatever the keyword store returns.
\<close>

lemma reduce_hits_tagged_similarity:
  assumes "X \<in> match_id ` set matches"
  shows "filter (\<lambda>(c, d). c = X) (snd (reduce_hits_tagged matches hits)) =
         concat (map tagged_of_match (filter (\<lambda>m. match_id m = X) matches))"
proof -
  obtain ids docs where p: "pinecone_loop_tagged matches ([], []) = (ids, docs)"
    by (cases "pinecone_loop_tagged matches ([], [])")
  have "set ids = match_id ` set matches"
    using pinecone_loop_tagged_ids[of matches "[]" "[]"] p by simp
  with assms have "X \<in> set ids" by simp
  moreover have "docs = concat (map tagged_of_match matches)"
    using pinecone_loop_tagged_docs[of matches "[]" "[]"] p by simp
  ultimately show ?thesis
    by (simp add: reduce_hits_tagged_def p fulltext_loop_tagged_seen filter_tagged_concat)
qed

subsection \<open>Precedence and uniqueness\<close>

text \<open>
  Claim C2. For a chunk id \<open>X\<close> that the vector store returns, the documents of \<open>X\<close> in the
  reduced list are exactly those built from the vector store's matches of \<open>X\<close>, in their
  order, whatever the keyword store returns for \<open>X\<close>: no document of \<open>X\<close> comes from a
  keyword hit. In particular, when the vector store returns \<open>X\<close> in one match, with
  metadata, the reduced list holds exactly one document for \<open>X\<close>, the one built from that
  metadata.
\<close>

theorem similarity_version_wins:
  assumes "X \<in> match_id ` set matches"
  shows "filter (\<lambda>(c, d). c = X) (snd (reduce_hits_tagged matches hits))
           = concat (map tagged_of_match (filter (\<lambda>m. match_id m = X) matches))
         \<and> (\<forall>m md. filter (\<lambda>m. match_id m = X) matches = [m] \<and> metadata m = Some md \<longrightarrow>
               filter (\<lambda>(c, d). c = X) (snd (reduce_hits_tagged matches hits))
                 = [(X, pinecone_document X md)])"
proof -
  have g: "filter (\<lambda>(c, d). c = X) (snd (reduce_hits_tagged matches hits))
           = concat (map tagged_of_match (filter (\<lambda>m. match_id m = X) matches))"
    using assms by (rule reduce_hits_tagged_similarity)
  moreover have "filter (\<lambda>(c, d). c = X) (snd (reduce_hits_tagged matches hits))
                 = [(X, pinecone_document X md)]"
    if "filter (\<lambda>m. match_id m = X) matches = [m] \<and> metadata m = Some md" for m md
  proof -
    from that have "m \<in> set (filter (\<lambda>m. match_id m = X) matches)" by simp
    then have "match_id m = X" by simp
    with that g show ?thesis by (simp add: tagged_of_match_def)
  qed
  ultimately show ?thesis by blast
qed

text \<open>
  Both backends return \<open>d1_0\<close> with different metadata, and the vector store returns
  another id twice; the one document kept for \<open>d1_0\<close> is the vector store's, and it differs
  from the one the keyword hit would give.
\<close>

theorem similarity_version_wins_witness:
  "filter (\<lambda>(c, d). c = ''d1_0'')
     (snd (reduce_hits_tagged
             [example_match ''d1_0'' ''d1'', example_match ''d3_0'' ''d3'', example_match ''d3_0'' ''d3'']
             [example_hit ''d1_0'' ''d1'', example_hit ''d2_0'' ''d2''])) =
   [(''d1_0'', pinecone_document ''d1_0'' (example_metadata ''d1''))]
   \<and> pinecone_document ''d1_0'' (example_metadata ''d1'')
       \<noteq> fulltext_document ''d1_0'' (hit_source (example_hit ''d1_0'' ''d1''))"
proof -
  let ?ms = "[example_match ''d1_0'' ''d1'', example_match ''d3_0'' ''d3'', example_match ''d3_0'' ''d3'']"
  let ?hs = "[example_hit ''d1_0'' ''d1'', example_hit ''d2_0'' ''d2'']"
  have x: "''d1_0'' \<in> match_id ` set ?ms" by (simp add: example_match_def)
  have f: "filter (\<lambda>m. match_id m = ''d1_0'') ?ms = [example_match ''d1_0'' ''d1'']"
    by (simp add: example_match_def)
  have md: "metadata (example_match ''d1_0'' ''d1'') = Some (example_metadata ''d1'')"
    by (simp add: example_match_def)
  from similarity_version_wins[OF x, of ?hs] f md
  have "filter (\<lambda>(c, d). c = ''d1_0'') (snd (reduce_hits_tagged ?ms ?hs)) =
        [(''d1_0'', pinecone_document ''d1_0'' (example_metadata ''d1''))]"
    by blast
  moreover have "pinecone_document ''d1_0'' (example_metadata ''d1'')
       \<noteq> fulltext_document ''d1_0'' (hit_source (example_hit ''d1_0'' ''d1''))"
    by (simp add: pinecone_document_def fulltext_document_def example_metadata_def example_hit_def)
  ultimately show ?thesis by simp
qed

text \<open>
  Claim C3, as stated, is about any two hit lists. The loop over the matches pushes every
  match with metadata without looking at \<open>id_set\<close>, so a match list with the same id twice
  gives two documents for that id.
\<close>

theorem reduce_hits_unique_counterexample:
  "\<not> distinct (map fst (snd (reduce_hits_tagged
         [example_match ''d1_0'' ''d1'', example_match ''d1_0'' ''d1''] [])))"
  by (simp add: reduce_hits_tagged_def example_match_def)

text \<open>
  Claim C3, amended. When the match list of the vector store holds no chunk id twice, the
  reduced list holds each chunk id at most once, whatever the keyword hits are (they may
  repeat ids of the matches and ids of their own).
\<close>

theorem reduce_hits_unique:
  assumes "distinct (map match_id matches)"
  shows "distinct (map fst (snd (reduce_hits_tagged matches hits)))"
proof -
  obtain ids docs where p: "pinecone_loop_tagged matches ([], []) = (ids, docs)"
    by (cases "pinecone_loop_tagged matches ([], [])")
  have ids: "set ids = match_id ` set matches"
    using pinecone_loop_tagged_ids[of matches "[]" "[]"] p by simp
  have docs: "docs = concat (map tagged_of_match matches)"
    using pinecone_loop_tagged_docs[of matches "[]" "[]"] p by simp
  have "distinct (map fst docs)"
    unfolding docs using assms by (rule distinct_concat_tagged)
  moreover have "fst ` set docs \<subseteq> set ids"
    unfolding docs ids using tagged_of_match_fst by fastforce
  ultimately show ?thesis
    unfolding reduce_hits_tagged_def p by (rule fulltext_loop_tagged_distinct)
qed

theorem reduce_hits_unique_witness:
  "distinct (map fst (snd (reduce_hits_tagged
      [example_match ''d1_0'' ''d1'', example_match ''d1_1'' ''d1'']
      [example_hit ''d1_0'' ''d1'', example_hit ''d2_0'' ''d2'', example_hit ''d2_0'' ''d2''])))
   \<and> map fst (snd (reduce_hits_tagged
      [example_match ''d1_0'' ''d1'', example_match ''d1_1'' ''d1'']
      [example_hit ''d1_0'' ''d1'', example_hit ''d2_0'' ''d2'', example_hit ''d2_0'' ''d2'']))
     = [''d1_0'', ''d1_1'', ''d2_0'']"
proof -
  have "distinct (map match_id [example_match ''d1_0'' ''d1'', example_match ''d1_1'' ''d1''])"
    by (simp add: example_match_def)
  then have "distinct (map fst (snd (reduce_hits_tagged
      [example_match ''d1_0'' ''d1'', example_match ''d1_1'' ''d1'']
      [example_hit ''d1_0'' ''d1'', example_hit ''d2_0'' ''d2'', example_hit ''d2_0'' ''d2''])))"
    by (rule reduce_hits_unique)
  moreover have "map fst (snd (reduce_hits_tagged
      [example_match ''d1_0'' ''d1'', example_match ''d1_1'' ''d1'']
      [example_hit ''d1_0'' ''d1'', example_hit ''d2_0'' ''d2'', example_hit ''d2_0'' ''d2'']))
     = [''d1_0'', ''d1_1'', ''d2_0'']"
    by (simp add: reduce_hits_tagged_def example_match_def example_hit_def set_has_def set_add_def)
  ultimately show ?thesis by simp
qed

section \<open>Properties of the context expansion\<close>

lemma collect_ranges_set:
  "collect_ranges ids extK acc = Some ext \<Longrightarrow>
   set ext = set acc \<union> (\<Union>cid\<in>set ids. range_ids cid extK)"
proof (induction ids arbitrary: acc)
  case Nil
  then show ?case by simp
next
  case (Cons cid ids)
  then obtain r where r: "getIdRange cid extK = Some r"
    and c: "collect_ranges ids extK (fold set_add r acc) = Some ext"
    by (auto split: option.splits)
  from c have "set ext = set (fold set_add r acc) \<union> (\<Union>cid\<in>set ids. range_ids cid extK)"
    by (rule Cons.IH)
  with r show ?case by (auto simp: set_fold_set_add range_ids_def)
qed

lemma collect_ranges_returns:
  "\<forall>cid\<in>set ids. getIdRange cid extK \<noteq> None \<Longrightarrow> collect_ranges ids extK acc \<noteq> None"
  by (induction ids arbitrary: acc) (auto split: option.splits)

lemma set_fold_set_delete: "set (fold set_delete ids acc) = set acc - set ids"
  by (induction ids arbitrary: acc) (auto simp: set_delete_def)

lemma set_extend_ids:
  "extend_ids id_set extK = Some c \<Longrightarrow>
   set c = (\<Union>cid\<in>set id_set. range_ids cid extK) - set id_set"
  by (auto simp: extend_ids_def set_fold_set_delete dest!: collect_ranges_set split: option.splits)

lemma extend_ids_returns:
  assumes "0 \<le> extK" and "\<forall>cid\<in>set id_set. safe_index cid extK"
  shows "extend_ids id_set extK \<noteq> None"
proof -
  from assms have "\<forall>cid\<in>set id_set. getIdRange cid extK \<noteq> None"
    by (simp add: getIdRange_returns)
  then have "collect_ranges id_set extK [] \<noteq> None" by (rule collect_ranges_returns)
  then show ?thesis by (auto simp: extend_ids_def)
qed

text \<open>
  Claim C6. When \<open>extK > 0\<close>: whenever the expansion comes to request ids from \<open>mget\<close>, the
  ids requested are the union of the ranges of all seen ids minus the seen ids, so none of
  them was seen before the expansion. It comes to the request whenever the index of every
  seen id, moved up by \<open>extK\<close>, stays a safe integer; a seen id beyond that keeps
  \<open>getIdRange\<close> from returning, and then no id is requested at all.
\<close>

theorem expansion_candidates:
  assumes "0 < extK"
  shows "(\<forall>c. mget_ids id_set extK = Some (Request c) \<longrightarrow>
            set c = (\<Union>cid\<in>set id_set. range_ids cid extK) - set id_set
            \<and> set c \<inter> set id_set = {})
         \<and> ((\<forall>cid\<in>set id_set. safe_index cid extK) \<longrightarrow>
              (\<exists>c. mget_ids id_set extK = Some (Request c)))"
proof (intro conjI allI impI)
  fix c assume "mget_ids id_set extK = Some (Request c)"
  with assms have "extend_ids id_set extK = Some c"
    by (auto simp: mget_ids_def split: option.splits)
  then show "set c = (\<Union>cid\<in>set id_set. range_ids cid extK) - set id_set"
    by (rule set_extend_ids)
  then show "set c \<inter> set id_set = {}" by blast
next
  assume "\<forall>cid\<in>set id_set. safe_index cid extK"
  with assms have "extend_ids id_set extK \<noteq> None" by (intro extend_ids_returns) simp_all
  with assms show "\<exists>c. mget_ids id_set extK = Some (Request c)"
    by (auto simp: mget_ids_def)
qed

lemma example_extend_ids:
  "extend_ids [''a_1'', ''a_2'', ''b_0''] 1 = Some [''a_0'', ''a_3'', ''b_1'']"
  by (simp add: extend_ids_def set_delete_def getIdRange_eval)

theorem expansion_candidates_witness:
  "mget_ids [''a_1'', ''a_2'', ''b_0''] 1 = Some (Request [''a_0'', ''a_3'', ''b_1''])
   \<and> set [''a_0'', ''a_3'', ''b_1''] \<inter> set [''a_1'', ''a_2'', ''b_0''] = {}"
proof -
  have e: "mget_ids [''a_1'', ''a_2'', ''b_0''] 1 = Some (Request [''a_0'', ''a_3'', ''b_1''])"
    by (simp add: mget_ids_def example_extend_ids)
  have "(0::int) < 1" by simp
  from expansion_candidates[OF this, of "[''a_1'', ''a_2'', ''b_0'']"] e
  have "set [''a_0'', ''a_3'', ''b_1''] \<inter> set [''a_1'', ''a_2'', ''b_0''] = {}"
    by blast
  with e show ?thesis by simp
qed



section \<open>Properties of the group merger\<close>

subsection \<open>The sort\<close>

lemma compare_docs_le:
  "compare_docs a b \<le> 0 \<longleftrightarrow> sort_key_of a \<le> sort_key_of b"
  by (auto simp: compare_docs_def sort_key_of_def less_eq_prod_def difference_sign_le)

lemma insert_by_compare_docs:
  "insert_by compare_docs x ys = insort_key sort_key_of x ys"
  by (induction ys) (simp_all add: compare_docs_le)

lemma array_sort_compare_docs:
  "array_sort compare_docs xs = sort_key sort_key_of xs"
  by (induction xs) (simp_all add: array_sort_def insert_by_compare_docs)

lemma insort_key_cong_le:
  "\<forall>y\<in>set ys. (f x \<le> f y \<longleftrightarrow> g x \<le> g y) \<Longrightarrow> insort_key f x ys = insort_key g x ys"
  by (induction ys) simp_all

lemma sort_key_cong_le:
  "\<forall>x\<in>set xs. \<forall>y\<in>set xs. (f x \<le> f y \<longleftrightarrow> g x \<le> g y) \<Longrightarrow> sort_key f xs = sort_key g xs"
proof (induction xs)
  case Nil
  then show ?case by simp
next
  case (Cons x xs)
  then have "sort_key f xs = sort_key g xs" by simp
  moreover have "insort_key f x (sort_key g xs) = insort_key g x (sort_key g xs)"
    using Cons.prems by (intro insort_key_cong_le) simp
  ultimately show ?case by simp
qed

lemma sort_key_of_same_parent:
  "\<forall>d\<in>set xs. d_id d = p \<Longrightarrow> sort_key sort_key_of xs = sort_key d_sort_id xs"
  by (rule sort_key_cong_le) (simp add: sort_key_of_def less_eq_prod_def)

lemma sorted_sort_key_of_d_id: "sorted (map d_id (sort_key sort_key_of xs))"
proof -
  have "sorted (map sort_key_of (sort_key sort_key_of xs))" by (rule sorted_sort_key)
  then have "sorted_wrt (\<lambda>a b. sort_key_of a \<le> sort_key_of b) (sort_key sort_key_of xs)"
    by (simp add: sorted_map)
  then have "sorted_wrt (\<lambda>a b. d_id a \<le> d_id b) (sort_key sort_key_of xs)"
    by (rule sorted_wrt_mono_rel[rotated]) (auto simp: sort_key_of_def less_eq_prod_def)
  then show ?thesis by (simp add: sorted_map)
qed

subsection \<open>The single pass\<close>

lemma push_group_append: "push_group c g = c @ push_group [] g"
  by (simp add: push_group_def split: list.splits)

lemma handle_last_group_acc:
  "handle_last_group (combine_loop xs (c, g, cur)) = c @ handle_last_group (combine_loop xs ([], g, cur))"
proof (induction xs arbitrary: c g cur)
  case Nil
  show ?case by (simp add: handle_last_group_def push_group_append[of c])
next
  case (Cons x xs)
  show ?case
  proof (cases "Some (d_id x) \<noteq> cur")
    case True
    have "handle_last_group (combine_loop (x # xs) (c, g, cur))
          = push_group c g @ handle_last_group (combine_loop xs ([], [x], Some (d_id x)))"
      using True Cons.IH[of "push_group c g"] by simp
    moreover have "handle_last_group (combine_loop (x # xs) ([], g, cur))
          = push_group [] g @ handle_last_group (combine_loop xs ([], [x], Some (d_id x)))"
      using True Cons.IH[of "push_group [] g"] by simp
    ultimately show ?thesis by (simp add: push_group_append[of c])
  next
    case False
    then show ?thesis using Cons.IH[of c "g @ [x]" cur] by simp
  qed
qed

lemma combine_loop_same:
  "\<forall>d\<in>set ys. d_id d = p \<Longrightarrow>
   combine_loop (ys @ zs) (c, g, Some p) = combine_loop zs (c, g @ ys, Some p)"
  by (induction ys arbitrary: g) simp_all

lemma combine_Nil: "combine [] = []"
  by (simp add: combine_def handle_last_group_def push_group_def)

text \<open>
  The pass closes the first group at the first document of another parent and goes on with
  the rest.
\<close>

lemma combine_Cons:
  "combine (x # xs) =
     push_group [] (x # takeWhile (\<lambda>d. d_id d = d_id x) xs)
       @ combine (dropWhile (\<lambda>d. d_id d = d_id x) xs)"
proof -
  let ?tw = "takeWhile (\<lambda>d. d_id d = d_id x) xs" and ?dw = "dropWhile (\<lambda>d. d_id d = d_id x) xs"
  have "combine (x # xs) = handle_last_group (combine_loop xs ([], [x], Some (d_id x)))"
    by (simp add: combine_def push_group_def)
  also have "combine_loop (?tw @ ?dw) ([], [x], Some (d_id x))
             = combine_loop ?dw ([], [x] @ ?tw, Some (d_id x))"
    by (rule combine_loop_same) (auto dest: set_takeWhileD)
  then have "combine_loop xs ([], [x], Some (d_id x)) = combine_loop ?dw ([], [x] @ ?tw, Some (d_id x))"
    by (simp only: takeWhile_dropWhile_id)
  also have "handle_last_group (combine_loop ?dw ([], [x] @ ?tw, Some (d_id x)))
             = push_group [] (x # ?tw) @ combine ?dw"
  proof (cases ?dw)
    case Nil
    show ?thesis unfolding Nil by (simp add: handle_last_group_def combine_Nil)
  next
    case (Cons z zs)
    then have "d_id z \<noteq> d_id x"
      by (metis (mono_tags, lifting) hd_dropWhile list.sel(1) list.distinct(1))
    then have "handle_last_group (combine_loop (z # zs) ([], [x] @ ?tw, Some (d_id x)))
               = handle_last_group (combine_loop zs (push_group [] (x # ?tw), [z], Some (d_id z)))"
      by simp
    also have "\<dots> = push_group [] (x # ?tw)
                      @ handle_last_group (combine_loop zs ([], [z], Some (d_id z)))"
      by (rule handle_last_group_acc)
    also have "handle_last_group (combine_loop zs ([], [z], Some (d_id z))) = combine (z # zs)"
      by (simp add: combine_def push_group_def)
    finally show ?thesis unfolding Cons by simp
  qed
  finally show ?thesis .
qed

lemma sorted_takeWhile_filter:
  "sorted (map f (x # xs)) \<Longrightarrow> takeWhile (\<lambda>y. f y = f x) xs = filter (\<lambda>y. f y = f x) xs"
proof (induction xs)
  case Nil
  then show ?case by simp
next
  case (Cons y ys)
  show ?case
  proof (cases "f y = f x")
    case True
    with Cons show ?thesis by simp
  next
    case False
    with Cons.prems have "\<forall>z\<in>set ys. f z \<noteq> f x" by fastforce
    then have "filter (\<lambda>y. f y = f x) ys = []" by (simp add: filter_empty_conv)
    with False show ?thesis by simp
  qed
qed

lemma sorted_dropWhile_filter:
  "sorted (map f (x # xs)) \<Longrightarrow> dropWhile (\<lambda>y. f y = f x) xs = filter (\<lambda>y. f y \<noteq> f x) xs"
proof (induction xs)
  case Nil
  then show ?case by simp
next
  case (Cons y ys)
  show ?case
  proof (cases "f y = f x")
    case True
    with Cons show ?thesis by simp
  next
    case False
    with Cons.prems have "\<forall>z\<in>set ys. f z \<noteq> f x" by fastforce
    then have "filter (\<lambda>y. f y \<noteq> f x) ys = ys" by (simp add: filter_id_conv)
    with False show ?thesis by simp
  qed
qed

lemma filter_push_group:
  "filter (\<lambda>d. d_id d = p) (push_group [] (x # g)) =
     (if d_id x = p then push_group [] (x # g) else [])"
  by (simp add: push_group_def)

lemma filter_combine_sorted:
  "sorted (map d_id xs) \<Longrightarrow>
   filter (\<lambda>d. d_id d = p) (combine xs) = push_group [] (filter (\<lambda>d. d_id d = p) xs)"
proof (induction "length xs" arbitrary: xs rule: less_induct)
  case less
  show ?case
  proof (cases xs)
    case Nil
    then show ?thesis by (simp add: combine_Nil push_group_def)
  next
    case (Cons x ys)
    let ?tw = "filter (\<lambda>d. d_id d = d_id x) ys" and ?dw = "filter (\<lambda>d. d_id d \<noteq> d_id x) ys"
    from less.prems Cons have s: "sorted (map d_id (x # ys))" by simp
    have c: "combine (x # ys) = push_group [] (x # ?tw) @ combine ?dw"
      unfolding combine_Cons sorted_takeWhile_filter[OF s] sorted_dropWhile_filter[OF s] ..
    have "sorted (map d_id ys)" using s by simp
    then have "sorted (map d_id ?dw)" by (rule sorted_filter)
    moreover have "length ?dw < length xs" using Cons by (simp add: le_imp_less_Suc)
    ultimately have ih: "filter (\<lambda>d. d_id d = p) (combine ?dw) =
        push_group [] (filter (\<lambda>d. d_id d = p) ?dw)"
      using less.hyps by blast
    show ?thesis
    proof (cases "p = d_id x")
      case True
      then have "filter (\<lambda>d. d_id d = p) ?dw = []" by (simp add: filter_empty_conv)
      with ih have "filter (\<lambda>d. d_id d = p) (combine ?dw) = []" by (simp add: push_group_def)
      with True show ?thesis unfolding Cons c by (simp add: filter_push_group)
    next
      case False
      then have "filter (\<lambda>d. d_id d = p) ?dw = filter (\<lambda>d. d_id d = p) ys"
        by (auto intro: filter_cong)
      with False ih show ?thesis unfolding Cons c by (simp add: filter_push_group)
    qed
  qed
qed

text \<open>
  The passages of parent \<open>p\<close> in the output are what closing one group gives for the
  members of \<open>p\<close>, stably sorted by \<open>sort_id\<close>: one passage when \<open>p\<close> has members, none
  otherwise. Members with equal \<open>sort_id\<close> stay in input order.
\<close>

lemma group_merge_group:
  "filter (\<lambda>d. d_id d = p) (group_merge unique_docs) =
   push_group [] (sort_key d_sort_id (filter (\<lambda>d. d_id d = p) unique_docs))"
proof -
  let ?s = "sort_key sort_key_of unique_docs"
  have "filter (\<lambda>d. d_id d = p) (combine ?s) = push_group [] (filter (\<lambda>d. d_id d = p) ?s)"
    using sorted_sort_key_of_d_id by (rule filter_combine_sorted)
  moreover have "filter (\<lambda>d. d_id d = p) ?s = sort_key sort_key_of (filter (\<lambda>d. d_id d = p) unique_docs)"
    by (rule filter_sort)
  moreover have "\<dots> = sort_key d_sort_id (filter (\<lambda>d. d_id d = p) unique_docs)"
    by (rule sort_key_of_same_parent[where p = p]) simp
  ultimately show ?thesis
    by (simp add: group_merge_def array_sort_compare_docs)
qed

text \<open>
  Chunks of one parent can have equal sort indices: \<open>p_1\<close> and \<open>p_01\<close> both have index
  \<open>1\<close>, and every id without the index pattern has index \<open>0\<close>.
\<close>

lemma sort_id_of_ties:
  "sort_id_of ''p_1'' = Num 1 \<and> sort_id_of ''p_01'' = Num 1
   \<and> sort_id_of ''p_a'' = Num 0 \<and> sort_id_of ''p_b'' = Num 0"
  by (simp add: sort_id_of_def match_index_def is_digit_def parseInt_def digits_value_def
        digit_val_def to_number_exact)

text \<open>
  Claim C7, as stated, is about any group and any input order. For two chunks of one parent
  with the same sort index, the text follows the input order: the two orders give two
  different texts.
\<close>

theorem group_merge_passage_counterexample:
  "map d_text (group_merge [example_chunk ''p'' 1 ''alpha'', example_chunk ''p'' 1 ''beta''])
     = [''alpha'' @ newline @ ''beta'']
   \<and> map d_text (group_merge [example_chunk ''p'' 1 ''beta'', example_chunk ''p'' 1 ''alpha''])
     = [''beta'' @ newline @ ''alpha'']"
  by (simp add: group_merge_def array_sort_def compare_docs_def combine_def handle_last_group_def
        push_group_def example_chunk_def)

text \<open>
  Claim C7, amended. Let \<open>first # rest\<close> list the chunks of parent \<open>p\<close> among the documents
  in ascending order of their sort indices, these being distinct. Whatever the order of the
  documents, the group merger gives exactly one passage for \<open>p\<close>: its text is the texts of
  \<open>first # rest\<close> joined by newlines, and every other field is that of \<open>first\<close>, the member
  with the lowest sort index.
\<close>

theorem group_merge_passage:
  assumes "mset (first # rest) = mset (filter (\<lambda>d. d_id d = p) unique_docs)"
    and "sorted (map d_sort_id (first # rest))"
    and "distinct (map d_sort_id (first # rest))"
  shows "filter (\<lambda>d. d_id d = p) (group_merge unique_docs) =
         [first\<lparr>d_text := join newline (map d_text (first # rest))\<rparr>]"
proof -
  let ?g = "first # rest" and ?ms = "filter (\<lambda>d. d_id d = p) unique_docs"
  have set_eq: "set ?g = set ?ms" using assms(1) by (rule mset_eq_setD)
  have dist: "distinct (map d_sort_id ?ms)"
  proof -
    have "mset (map d_sort_id ?g) = mset (map d_sort_id ?ms)"
      using assms(1) by (metis mset_map)
    then show ?thesis using assms(3) by (metis mset_eq_imp_distinct_iff)
  qed
  have "sort_key d_sort_id ?ms = ?g"
  proof (rule properties_for_sort_key)
    show "mset ?g = mset ?ms" by (rule assms(1))
    show "sorted (map d_sort_id ?g)" by (rule assms(2))
    fix k assume k: "k \<in> set ?g"
    have flip: "filter (\<lambda>x. d_sort_id k = d_sort_id x) zs = filter (\<lambda>x. d_sort_id x = d_sort_id k) zs"
      for zs :: "Document list"
      by (rule filter_cong) auto
    have a: "filter (\<lambda>x. d_sort_id x = d_sort_id k) ?g = [k]"
      using assms(3) k by (rule filter_distinct_member)
    from k set_eq have "k \<in> set ?ms" by blast
    with dist have b: "filter (\<lambda>x. d_sort_id x = d_sort_id k) ?ms = [k]"
      by (rule filter_distinct_member)
    show "filter (\<lambda>x. d_sort_id k = d_sort_id x) ?g = filter (\<lambda>x. d_sort_id k = d_sort_id x) ?ms"
      unfolding flip a b ..
  qed
  with group_merge_group[of p unique_docs] show ?thesis by (simp add: push_group_def)
qed

text \<open>
  The chunks \<open>p_2, p_0, p_1\<close> of parent \<open>p\<close>, given in two different orders and with a
  chunk of another parent between them: the passage is the same.
\<close>

theorem group_merge_passage_witness:
  "filter (\<lambda>d. d_id d = ''p'')
     (group_merge [example_chunk ''p'' 2 ''gamma'', example_chunk ''q'' 1 ''other'',
                   example_chunk ''p'' 0 ''alpha'', example_chunk ''p'' 1 ''beta'']) =
   [(example_chunk ''p'' 0 ''alpha'')\<lparr>d_text := ''alpha'' @ newline @ ''beta'' @ newline @ ''gamma''\<rparr>]
   \<and> filter (\<lambda>d. d_id d = ''p'')
     (group_merge [example_chunk ''p'' 1 ''beta'', example_chunk ''p'' 0 ''alpha'',
                   example_chunk ''q'' 1 ''other'', example_chunk ''p'' 2 ''gamma'']) =
   [(example_chunk ''p'' 0 ''alpha'')\<lparr>d_text := ''alpha'' @ newline @ ''beta'' @ newline @ ''gamma''\<rparr>]"
proof -
  let ?g = "example_chunk ''p'' 0 ''alpha''
              # [example_chunk ''p'' 1 ''beta'', example_chunk ''p'' 2 ''gamma'']"
  let ?docs = "[example_chunk ''p'' 2 ''gamma'', example_chunk ''q'' 1 ''other'',
                example_chunk ''p'' 0 ''alpha'', example_chunk ''p'' 1 ''beta'']"
  let ?docs' = "[example_chunk ''p'' 1 ''beta'', example_chunk ''p'' 0 ''alpha'',
                 example_chunk ''q'' 1 ''other'', example_chunk ''p'' 2 ''gamma'']"
  have f: "filter (\<lambda>d. d_id d = ''p'') ?docs =
           [example_chunk ''p'' 2 ''gamma'', example_chunk ''p'' 0 ''alpha'', example_chunk ''p'' 1 ''beta'']"
    by (simp add: example_chunk_def)
  have f': "filter (\<lambda>d. d_id d = ''p'') ?docs' =
           [example_chunk ''p'' 1 ''beta'', example_chunk ''p'' 0 ''alpha'', example_chunk ''p'' 2 ''gamma'']"
    by (simp add: example_chunk_def)
  have m: "mset ?g = mset (filter (\<lambda>d. d_id d = ''p'') ?docs)"
    unfolding f by (simp add: add_mset_commute)
  have m': "mset ?g = mset (filter (\<lambda>d. d_id d = ''p'') ?docs')"
    unfolding f' by (simp add: add_mset_commute)
  have s: "sorted (map d_sort_id ?g)"
    by (simp add: example_chunk_def)
  have d: "distinct (map d_sort_id ?g)"
    by (simp add: example_chunk_def)
  show ?thesis
    using group_merge_passage[OF m s d] group_merge_passage[OF m' s d]
    by (simp add: example_chunk_def)
qed

section \<open>Properties of the journal search\<close>

lemma sci_docList_missing:
  "d \<in> set docs \<Longrightarrow> find_record pg (sd_id d) = None \<Longrightarrow> sci_docList pg docs = Inl Record_not_found"
proof (induction docs)
  case Nil
  then show ?case by simp
next
  case (Cons a docs)
  show ?case
  proof (cases "find_record pg (sd_id a)")
    case None
    then show ?thesis by simp
  next
    case (Some found_record)
    with Cons.prems have "d \<in> set docs" by auto
    then have "sci_docList pg docs = Inl Record_not_found" using Cons by simp
    with Some show ?thesis by simp
  qed
qed

lemma getMeta_loop_batch_error:
  "j \<le> i \<Longrightarrow> batchSize dvd (i - j) \<Longrightarrow> i < length dois \<Longrightarrow>
   select_in (take batchSize (drop i dois)) = None \<Longrightarrow>
   getMeta_loop select_in dois j allData = None"
proof (induction select_in dois j allData rule: getMeta_loop.induct)
  case (1 select_in dois j allData)
  from "1.prems" have lt: "j < length dois" by simp
  show ?case
  proof (cases "select_in (take batchSize (drop j dois))")
    case None
    with lt show ?thesis by (subst getMeta_loop.simps) simp
  next
    case (Some dat)
    with "1.prems" have "i \<noteq> j" by auto
    with "1.prems" have "0 < i - j" by simp
    with "1.prems"(2) have "batchSize \<le> i - j" by (rule dvd_imp_le)
    with "1.prems" have le: "j + batchSize \<le> i" by simp
    from "1.prems"(1,2) le have "batchSize dvd (i - (j + batchSize))"
      by (metis add_diff_cancel_left' diff_diff_left dvd_diff_nat dvd_refl le_add_diff_inverse)
    with "1.IH"[OF lt Some le] "1.prems" have "getMeta_loop select_in dois (j + batchSize) (allData @ dat) = None"
      by simp
    with lt Some show ?thesis by (subst getMeta_loop.simps) simp
  qed
qed

text \<open>
  An error of any batch call makes \<open>getMeta\<close> return \<open>null\<close>.
\<close>

lemma getMeta_batch_error:
  "i < length dois \<Longrightarrow> batchSize dvd i \<Longrightarrow> select_in (take batchSize (drop i dois)) = None \<Longrightarrow>
   getMeta select_in dois = None"
  unfolding getMeta_def by (rule getMeta_loop_batch_error) simp_all

lemma uniqueIds_Nil: "uniqueIds [] = []"
  by (simp add: uniqueIds_def)

text \<open>
  Claim C8. If a batch call of the relational store reports an error, or if the lookup
  yields no record for the identifier of some document, then \<open>search\<close> fails with
  "Record not found": it returns no list, partial or otherwise. After a batch error the
  lookup result is absent, and \<open>find\<close> on it yields no record for any document.
\<close>

theorem sci_search_record_missing:
  assumes "(\<exists>i<length (uniqueIds (sci_unique_docs fmt matches)).
              batchSize dvd i
              \<and> select_in (take batchSize (drop i (uniqueIds (sci_unique_docs fmt matches)))) = None)
           \<or> (\<exists>d\<in>set (sci_unique_docs fmt matches).
                find_record (getMeta select_in (uniqueIds (sci_unique_docs fmt matches))) (sd_id d) = None)"
  shows "sci_search fmt select_in matches = Inl Record_not_found"
proof -
  let ?docs = "sci_unique_docs fmt matches"
  let ?pg = "getMeta select_in (uniqueIds ?docs)"
  have "\<exists>d\<in>set ?docs. find_record ?pg (sd_id d) = None"
    using assms
  proof
    assume "\<exists>i<length (uniqueIds ?docs). batchSize dvd i
              \<and> select_in (take batchSize (drop i (uniqueIds ?docs))) = None"
    then obtain i where i: "i < length (uniqueIds ?docs)" "batchSize dvd i"
      "select_in (take batchSize (drop i (uniqueIds ?docs))) = None" by blast
    then have "?pg = None" by (rule getMeta_batch_error)
    moreover from i(1) have "?docs \<noteq> []" using uniqueIds_Nil by fastforce
    then obtain d where "d \<in> set ?docs" by (cases ?docs) auto
    ultimately show ?thesis by (auto simp: find_record_def)
  qed
  then obtain d where "d \<in> set ?docs" "find_record ?pg (sd_id d) = None" by blast
  then have "sci_docList ?pg ?docs = Inl Record_not_found" by (rule sci_docList_missing)
  then show ?thesis by (simp add: sci_search_def Let_def)
qed

text \<open>
  One identifier missing from the store, and a store whose call fails.
\<close>

lemma example_sci_docs: "sci_unique_docs example_format [example_sci_match ''10.1/abc'', example_sci_match ''10.1/xyz'']
   = [\<lparr>sd_id = ''10.1/abc'', sd_text = ''abstract'', sd_journal = ''Journal'', sd_date = ''2023-11''\<rparr>,
      \<lparr>sd_id = ''10.1/xyz'', sd_text = ''abstract'', sd_journal = ''Journal'', sd_date = ''2023-11''\<rparr>]"
  by (simp add: example_sci_match_def example_format_def truthy_string_def)

lemma example_sci_ids: "uniqueIds [\<lparr>sd_id = ''10.1/abc'', sd_text = ''abstract'', sd_journal = ''Journal'', sd_date = ''2023-11''\<rparr>,
      \<lparr>sd_id = ''10.1/xyz'', sd_text = ''abstract'', sd_journal = ''Journal'', sd_date = ''2023-11''\<rparr>]
   = [''10.1/abc'', ''10.1/xyz'']"
  by (simp add: uniqueIds_def set_add_def)

lemma example_sci_meta: "getMeta example_journals [''10.1/abc'', ''10.1/xyz'']
    = Some [\<lparr>doi = ''10.1/abc'', title = ''A paper'', authors = [''X'', ''Y'']\<rparr>]"
  by (simp add: getMeta_def getMeta_loop.simps[of _ _ 0] getMeta_loop.simps[of _ _ 400]
        batchSize_def example_journals_def)

theorem sci_search_record_missing_witness:
  "sci_search example_format example_journals
     [example_sci_match ''10.1/abc'', example_sci_match ''10.1/xyz''] = Inl Record_not_found
   \<and> sci_search example_format failing_store [example_sci_match ''10.1/abc''] = Inl Record_not_found"
proof -
  let ?ms = "[example_sci_match ''10.1/abc'', example_sci_match ''10.1/xyz'']"
  have "\<exists>d\<in>set (sci_unique_docs example_format ?ms).
          find_record (getMeta example_journals (uniqueIds (sci_unique_docs example_format ?ms)))
            (sd_id d) = None"
    unfolding example_sci_docs example_sci_ids example_sci_meta by (simp add: find_record_def)
  then have a: "sci_search example_format example_journals ?ms = Inl Record_not_found"
    by (intro sci_search_record_missing disjI2)
  let ?m1 = "[example_sci_match ''10.1/abc'']"
  have d1: "sci_unique_docs example_format ?m1
      = [\<lparr>sd_id = ''10.1/abc'', sd_text = ''abstract'', sd_journal = ''Journal'', sd_date = ''2023-11''\<rparr>]"
    by (simp add: example_sci_match_def example_format_def truthy_string_def)
  have "\<exists>i<length (uniqueIds (sci_unique_docs example_format ?m1)).
          batchSize dvd i
          \<and> failing_store (take batchSize (drop i (uniqueIds (sci_unique_docs example_format ?m1)))) = None"
    unfolding d1 by (simp add: uniqueIds_def set_add_def failing_store_def)
  then have b: "sci_search example_format failing_store ?m1 = Inl Record_not_found"
    by (intro sci_search_record_missing disjI1)
  from a b show ?thesis by simp
qed

end
